theory Spec2Isabelle
  imports Main "HOL-Library.Multiset"
begin

section \<open>The PRINCE candidate generator (pp.c): data model\<close>

text \<open>
  The arbitrary-precision integers of the program (\<open>mpz_t\<close>) are \<open>int\<close>. A word is the
  byte string copied from the input line; the program stores it in a zero-filled 16-byte
  \<open>word_t\<close>, which \<open>word_t_buf\<close> rebuilds. An element chain \<open>elem_t\<close> keeps its part
  lengths in \<open>buf[0 .. cnt-1]\<close>: the model keeps exactly this prefix as a list, so
  \<open>cnt\<close> is its length. \<open>words_cnt\<close> and \<open>elems_cnt\<close> are the lengths of the two
  growable arrays of a \<open>db_entry_t\<close>; counts and lengths are natural numbers. The
  platform is one where \<open>unsigned long\<close>, the type of the \<open>_ui\<close> arguments and
  results of GMP, has the 64 bits of \<open>u64\<close>.
\<close>

definition IN_LEN_MIN :: nat where "IN_LEN_MIN = 1"
definition IN_LEN_MAX :: nat where "IN_LEN_MAX = 16"

datatype error =
    DivByZero
  | WordIndexOutOfRange
  | ElemIndexOutOfRange
  | PwBufOverflow
  | OutBufOverflow
  | OutOfFuel
  | Usage string

record elem_t =
  buf :: "nat list"
  ks_cnt :: int
  ks_pos :: int

record db_entry_t =
  words_buf :: "string list"
  elems_buf :: "elem_t list"
  elems_pos :: nat

type_synonym db_entries = "nat \<Rightarrow> db_entry_t"

definition words_cnt :: "db_entry_t \<Rightarrow> nat" where
  "words_cnt e = length (words_buf e)"

definition elems_cnt :: "db_entry_t \<Rightarrow> nat" where
  "elems_cnt e = length (elems_buf e)"

definition word_t_buf :: "string \<Rightarrow> string" where
  "word_t_buf w = w @ replicate (IN_LEN_MAX - length w) (CHR 0x00)"

definition calloc_db :: db_entries where
  "calloc_db = (\<lambda>k. \<lparr>words_buf = [], elems_buf = [], elems_pos = 0\<rparr>)"

subsection \<open>Loading the word list\<close>

text \<open>
  \<open>load_words\<close> takes the strings that \<open>fgets\<close> returns, one for each pass of the
  reading loop. \<open>in_superchop\<close> cuts the trailing line feeds and carriage returns
  (\<open>chop_rev\<close> works on the reversed string). The program's exits on exhausted memory
  and on a failing \<open>fopen\<close> are not modelled.
\<close>

fun chop_rev :: "string \<Rightarrow> string" where
  "chop_rev [] = []"
| "chop_rev (c # cs) =
     (if c = CHR 0x0A then chop_rev cs
      else if c = CHR 0x0D then chop_rev cs
      else c # cs)"

definition in_superchop :: "string \<Rightarrow> string" where
  "in_superchop s = rev (chop_rev (rev s))"

definition add_word :: "db_entries \<Rightarrow> string \<Rightarrow> db_entries" where
  "add_word db line =
     (let w = in_superchop line; input_len = length w in
      if input_len < IN_LEN_MIN then db
      else if input_len > IN_LEN_MAX then db
      else db(input_len := (db input_len)\<lparr>words_buf := words_buf (db input_len) @ [w]\<rparr>))"

definition load_words :: "string list \<Rightarrow> db_entries" where
  "load_words ls = foldl add_word calloc_db ls"

subsection \<open>Chain generation and the filters\<close>

text \<open>
  \<open>elem_gen_loop\<close> is the \<open>for\<close> loop of \<open>elem_gen_with_idx\<close> from \<open>elems_shr\<close> on,
  with the parts written so far in \<open>acc\<close>; the bit test \<open>(elems_idx >> elems_shr) & 1\<close>
  is \<open>(elems_idx div 2 ^ elems_shr) mod 2 = 1\<close>.
\<close>

function elem_gen_loop :: "nat \<Rightarrow> nat \<Rightarrow> nat \<Rightarrow> nat \<Rightarrow> nat list \<Rightarrow> nat list" where
  "elem_gen_loop len1 elems_idx elems_shr elem_key acc =
     (if elems_shr < len1 then
        (if (elems_idx div 2 ^ elems_shr) mod 2 = 1
         then elem_gen_loop len1 elems_idx (Suc elems_shr) 1 (acc @ [elem_key])
         else elem_gen_loop len1 elems_idx (Suc elems_shr) (Suc elem_key) acc)
      else acc @ [elem_key])"
  by pat_completeness auto
termination
  by (relation "measure (\<lambda>(len1, elems_idx, elems_shr, elem_key, acc). len1 - elems_shr)") auto

declare elem_gen_loop.simps [simp del]

definition elem_gen_with_idx :: "nat \<Rightarrow> nat \<Rightarrow> nat list" where
  "elem_gen_with_idx len1 elems_idx = elem_gen_loop len1 elems_idx 0 1 []"

fun elem_valid_with_db :: "nat list \<Rightarrow> db_entries \<Rightarrow> bool" where
  "elem_valid_with_db [] db = True"
| "elem_valid_with_db (elem_key # ks) db =
     (if words_cnt (db elem_key) = 0 then False else elem_valid_with_db ks db)"

definition elem_valid_with_cnt_min :: "nat list \<Rightarrow> int \<Rightarrow> bool" where
  "elem_valid_with_cnt_min b elem_cnt_min = (\<not> int (length b) < elem_cnt_min)"

definition elem_valid_with_cnt_max :: "nat list \<Rightarrow> int \<Rightarrow> bool" where
  "elem_valid_with_cnt_max b elem_cnt_max = (\<not> int (length b) > elem_cnt_max)"

subsection \<open>Keyspace of a chain\<close>

fun elem_ks_loop :: "nat list \<Rightarrow> db_entries \<Rightarrow> int \<Rightarrow> int" where
  "elem_ks_loop [] db ks = ks"
| "elem_ks_loop (elem_key # ks') db ks =
     elem_ks_loop ks' db (ks * int (words_cnt (db elem_key)))"

definition elem_ks :: "nat list \<Rightarrow> db_entries \<Rightarrow> int" where
  "elem_ks b db = elem_ks_loop b db 1"

subsection \<open>The materializer\<close>

text \<open>
  \<open>memcpy_at dst off src n\<close> is \<open>memcpy (dst + off, src, n)\<close> on a destination array
  with \<open>length dst\<close> bytes; writing past its end is the error \<open>PwBufOverflow\<close>.
  \<open>mpz_fdiv_ui\<close> and \<open>mpz_div_ui\<close> divide by \<open>words_cnt\<close>, rounding down (as \<open>mod\<close>
  and \<open>div\<close> on \<open>int\<close> do); with \<open>words_cnt = 0\<close> GMP raises a division by zero.
\<close>

definition memcpy_at :: "string \<Rightarrow> nat \<Rightarrow> string \<Rightarrow> nat \<Rightarrow> error + string" where
  "memcpy_at dst off src n =
     (if off + n > length dst \<or> n > length src then Inl PwBufOverflow
      else Inr (take off dst @ take n src @ drop (off + n) dst))"

fun elem_set_pwbuf :: "nat list \<Rightarrow> db_entries \<Rightarrow> int \<Rightarrow> nat \<Rightarrow> string \<Rightarrow> error + string" where
  "elem_set_pwbuf [] db p off pw_buf = Inr pw_buf"
| "elem_set_pwbuf (elem_key # ks) db p off pw_buf =
     (let wc = words_cnt (db elem_key) in
      if wc = 0 then Inl DivByZero
      else
        let words_idx = nat (p mod int wc) in
        if \<not> words_idx < wc then Inl WordIndexOutOfRange
        else
          (case memcpy_at pw_buf off (word_t_buf (words_buf (db elem_key) ! words_idx)) elem_key of
             Inl e \<Rightarrow> Inl e
           | Inr pw_buf' \<Rightarrow> elem_set_pwbuf ks db (p div int wc) (off + elem_key) pw_buf'))"

subsection \<open>The buffered writer\<close>

text \<open>
  \<open>out_t\<close>: \<open>fp\<close> is the byte stream written so far, \<open>obuf\<close> the first \<open>len\<close> bytes of
  the array \<open>buf[BUFSIZ]\<close>. \<open>BUFSIZ\<close> comes from the C library's header and is a
  parameter \<open>bufsiz\<close> here (the C standard requires it to be at least 256). A
  \<open>memcpy\<close> that would write past \<open>buf + BUFSIZ\<close> is the error \<open>OutBufOverflow\<close>.
\<close>

record out_t =
  fp :: string
  obuf :: string

definition out_len :: "out_t \<Rightarrow> int" where
  "out_len out = int (length (obuf out))"

definition out_flush :: "out_t \<Rightarrow> out_t" where
  "out_flush out = \<lparr>fp = fp out @ obuf out, obuf = []\<rparr>"

definition out_push :: "int \<Rightarrow> out_t \<Rightarrow> string \<Rightarrow> error + out_t" where
  "out_push bufsiz out line =
     (if out_len out + int (length line) > bufsiz then Inl OutBufOverflow
      else
        let out' = out\<lparr>obuf := obuf out @ line\<rparr> in
        if out_len out' \<ge> bufsiz - 100 then Inr (out_flush out') else Inr out')"

datatype out_op = Push string | Flush

fun out_run :: "int \<Rightarrow> out_t \<Rightarrow> out_op list \<Rightarrow> error + out_t" where
  "out_run bufsiz out [] = Inr out"
| "out_run bufsiz out (Flush # ops) = out_run bufsiz (out_flush out) ops"
| "out_run bufsiz out (Push line # ops) =
     (case out_push bufsiz out line of
        Inl e \<Rightarrow> Inl e
      | Inr out' \<Rightarrow> out_run bufsiz out' ops)"

definition out_init :: out_t where
  "out_init = \<lparr>fp = [], obuf = []\<rparr>"

section \<open>The program: setup\<close>

text \<open>
  What the program takes from the C library is gathered in a record: \<open>BUFSIZ\<close>, the
  bytes that the uninitialised array \<open>pw_buf[BUFSIZ]\<close> happens to hold, and \<open>qsort\<close>
  at the two element types it is called with (the second argument is the array, the
  first the comparison function).
\<close>

record pw_order_t =
  len :: nat
  cnt :: nat

record platform =
  BUFSIZ :: int
  pw_buf_init :: string
  qsort_elems :: "(elem_t \<Rightarrow> elem_t \<Rightarrow> int) \<Rightarrow> elem_t list \<Rightarrow> elem_t list"
  qsort_orders :: "(pw_order_t \<Rightarrow> pw_order_t \<Rightarrow> int) \<Rightarrow> pw_order_t list \<Rightarrow> pw_order_t list"

record params =
  pw_min :: int
  pw_max :: int
  elem_cnt_min :: int
  elem_cnt_max :: int
  wl_dist_len :: bool
  keyspace :: bool
  skip :: int
  limit :: int

definition check_params :: "params \<Rightarrow> string option" where
  "check_params p =
     (if pw_min p \<le> 0 then Some ''Value of --pw-min must be greater than 0''
      else if pw_min p \<le> 0 then Some ''Value of --pw-max must be greater than 0''
      else if elem_cnt_min p \<le> 0 then Some ''Value of --elem-cnt-min must be greater than 0''
      else if elem_cnt_max p \<le> 0 then Some ''Value of --elem-cnt-max must be greater than 0''
      else if pw_min p > pw_max p
        then Some ''Value of --pw-min must be smaller or equal than value of --pw-max''
      else if elem_cnt_min p > elem_cnt_max p
        then Some ''Value of --elem-cnt-min must be smaller or equal than value of --elem-cnt-max''
      else if pw_min p < int IN_LEN_MIN
        then Some ''Value of --pw-min must be greater or equal than 1''
      else if pw_max p > int IN_LEN_MAX
        then Some ''Value of --pw-max must be smaller or equal than 16''
      else None)"

subsection \<open>init elems\<close>

definition add_elem :: "db_entry_t \<Rightarrow> nat list \<Rightarrow> db_entry_t" where
  "add_elem e b = e\<lparr>elems_buf := elems_buf e @ [\<lparr>buf = b, ks_cnt = 0, ks_pos = 0\<rparr>]\<rparr>"

definition init_elem_step :: "int \<Rightarrow> int \<Rightarrow> nat \<Rightarrow> db_entries \<Rightarrow> nat \<Rightarrow> db_entries" where
  "init_elem_step ecmin ecmax pw_len db elems_idx =
     (let b = elem_gen_with_idx (pw_len - 1) elems_idx in
      if \<not> elem_valid_with_db b db then db
      else if \<not> elem_valid_with_cnt_min b ecmin then db
      else if \<not> elem_valid_with_cnt_max b ecmax then db
      else db(pw_len := add_elem (db pw_len) b))"

definition init_elems_len :: "int \<Rightarrow> int \<Rightarrow> db_entries \<Rightarrow> nat \<Rightarrow> db_entries" where
  "init_elems_len ecmin ecmax db pw_len =
     foldl (init_elem_step ecmin ecmax pw_len) db [0 ..< 2 ^ (pw_len - 1)]"

definition init_elems :: "nat \<Rightarrow> nat \<Rightarrow> int \<Rightarrow> int \<Rightarrow> db_entries \<Rightarrow> db_entries" where
  "init_elems pmin pmax ecmin ecmax db =
     foldl (init_elems_len ecmin ecmax) db [pmin ..< Suc pmax]"

subsection \<open>Output length distribution\<close>

definition DEF_WORDLEN_DIST_CNT :: nat where "DEF_WORDLEN_DIST_CNT = 25"

definition DEF_WORDLEN_DIST :: "nat list" where
  "DEF_WORDLEN_DIST =
     [0, 15, 56, 350, 3315, 43721, 276252, 201748, 226412, 119885, 75075, 26323, 13373,
      6353, 3540, 1877, 972, 311, 151, 81, 66, 21, 16, 13, 13]"

text \<open>\<open>wordlen_dist\<close> is a zeroed array of \<open>IN_LEN_MAX + 1\<close> entries, filled at 1..16.\<close>

definition calc_wordlen_dist :: "bool \<Rightarrow> db_entries \<Rightarrow> nat \<Rightarrow> nat" where
  "calc_wordlen_dist wl db pw_len =
     (if pw_len < IN_LEN_MIN \<or> pw_len > IN_LEN_MAX then 0
      else if wl then words_cnt (db pw_len)
      else if pw_len < DEF_WORDLEN_DIST_CNT then DEF_WORDLEN_DIST ! pw_len
      else 1)"

subsection \<open>Keyspace of every chain and in total\<close>

fun calc_ks_elems :: "db_entries \<Rightarrow> elem_t list \<Rightarrow> int \<Rightarrow> elem_t list \<times> int" where
  "calc_ks_elems db [] tot = ([], tot)"
| "calc_ks_elems db (e # es) tot =
     (let ks = elem_ks (buf e) db;
          e' = e\<lparr>ks_cnt := ks_cnt e + ks\<rparr>;
          (es', tot') = calc_ks_elems db es (tot + ks)
      in (e' # es', tot'))"

definition calc_ks_len :: "db_entries \<times> int \<Rightarrow> nat \<Rightarrow> db_entries \<times> int" where
  "calc_ks_len s pw_len =
     (let db = fst s;
          (es', tot') = calc_ks_elems db (elems_buf (db pw_len)) (snd s)
      in (db(pw_len := (db pw_len)\<lparr>elems_buf := es'\<rparr>), tot'))"

definition calc_ks :: "nat \<Rightarrow> nat \<Rightarrow> db_entries \<Rightarrow> db_entries \<times> int" where
  "calc_ks pmin pmax db = foldl calc_ks_len (db, 0) [pmin ..< Suc pmax]"

subsection \<open>The two sorts\<close>

text \<open>\<open>mpz_cmp\<close> gives a positive value, zero or a negative value; only its sign is used.\<close>

definition mpz_cmp :: "int \<Rightarrow> int \<Rightarrow> int" where
  "mpz_cmp a b = (if a < b then - 1 else if a > b then 1 else 0)"

definition sort_by_cnt :: "pw_order_t \<Rightarrow> pw_order_t \<Rightarrow> int" where
  "sort_by_cnt o1 o2 = (if cnt o1 < cnt o2 then 1 else 0)"

definition sort_by_ks :: "elem_t \<Rightarrow> elem_t \<Rightarrow> int" where
  "sort_by_ks f1 f2 = mpz_cmp (ks_cnt f1) (ks_cnt f2)"

definition sort_elems_len :: "platform \<Rightarrow> db_entries \<Rightarrow> nat \<Rightarrow> db_entries" where
  "sort_elems_len pf db pw_len =
     db(pw_len := (db pw_len)\<lparr>elems_buf := qsort_elems pf sort_by_ks (elems_buf (db pw_len))\<rparr>)"

definition sort_elems :: "platform \<Rightarrow> nat \<Rightarrow> nat \<Rightarrow> db_entries \<Rightarrow> db_entries" where
  "sort_elems pf pmin pmax db = foldl (sort_elems_len pf) db [pmin ..< Suc pmax]"

definition init_pw_orders :: "nat \<Rightarrow> nat \<Rightarrow> db_entries \<Rightarrow> pw_order_t list" where
  "init_pw_orders pmin pmax db =
     map (\<lambda>pw_len. \<lparr>len = pw_len, cnt = words_cnt (db pw_len)\<rparr>) [pmin ..< Suc pmax]"

definition sort_pw_orders :: "platform \<Rightarrow> nat \<Rightarrow> nat \<Rightarrow> db_entries \<Rightarrow> pw_order_t list" where
  "sort_pw_orders pf pmin pmax db = qsort_orders pf sort_by_cnt (init_pw_orders pmin pmax db)"

subsection \<open>Validation of skip and limit\<close>

definition check_window :: "int \<Rightarrow> int \<Rightarrow> int \<Rightarrow> error + int" where
  "check_window skp lim total_ks_cnt =
     (if skp \<noteq> 0 \<and> skp > total_ks_cnt
        then Inl (Usage ''Value of --skip must be smaller than total keyspace'')
      else if lim \<noteq> 0 then
        (if lim > total_ks_cnt
           then Inl (Usage ''Value of --limit must be smaller than total keyspace'')
         else
           let tmp = skp + lim in
           if tmp > total_ks_cnt
             then Inl (Usage ''Value of --skip + --limit must be smaller than total keyspace'')
           else Inr tmp)
      else Inr total_ks_cnt)"

section \<open>The program: the enumeration loop\<close>

record loop_state =
  st_db :: db_entries
  st_out :: out_t
  st_total_ks_pos :: int

text \<open>\<open>mpz_get_ui\<close>: the least significant 64 bits of the absolute value.\<close>

definition mpz_get_ui :: "int \<Rightarrow> nat" where
  "mpz_get_ui z = nat (\<bar>z\<bar> mod 2 ^ 64)"

text \<open>
  \<open>iter_loop\<close> is the innermost \<open>for\<close> loop with \<open>n\<close> iterations left, at index
  \<open>iter_pos_u64\<close>; \<open>elem_ks_pos\<close> is \<open>elem_buf->ks_pos\<close>. The candidate is built in
  \<open>pw_buf\<close> from offset 0 and its first \<open>pw_len + 1\<close> bytes are pushed.
\<close>

fun iter_loop ::
  "int \<Rightarrow> db_entries \<Rightarrow> nat list \<Rightarrow> nat \<Rightarrow> int \<Rightarrow> int \<Rightarrow> nat \<Rightarrow> nat
     \<Rightarrow> out_t \<times> int \<times> string \<Rightarrow> error + out_t \<times> int \<times> string" where
  "iter_loop bufsiz db b pw_len skp elem_ks_pos 0 iter_pos_u64 s = Inr s"
| "iter_loop bufsiz db b pw_len skp elem_ks_pos (Suc n) iter_pos_u64 (out, total_ks_pos, pw_buf) =
     (if total_ks_pos \<ge> skp then
        (case elem_set_pwbuf b db (elem_ks_pos + int iter_pos_u64) 0 pw_buf of
           Inl e \<Rightarrow> Inl e
         | Inr pw_buf' \<Rightarrow>
             (case out_push bufsiz out (take (pw_len + 1) pw_buf') of
                Inl e \<Rightarrow> Inl e
              | Inr out' \<Rightarrow>
                  iter_loop bufsiz db b pw_len skp elem_ks_pos n (Suc iter_pos_u64)
                    (out', total_ks_pos + 1, pw_buf')))
      else
        iter_loop bufsiz db b pw_len skp elem_ks_pos n (Suc iter_pos_u64)
          (out, total_ks_pos + 1, pw_buf))"

text \<open>
  \<open>visit_slot\<close> is the body of the loop over \<open>order_pos\<close> after the test
  \<open>elems_pos == elems_cnt\<close>: one batch of the active chain of length \<open>pw_len\<close>.
\<close>

definition visit_slot ::
  "platform \<Rightarrow> (nat \<Rightarrow> nat) \<Rightarrow> int \<Rightarrow> int \<Rightarrow> nat \<Rightarrow> loop_state \<Rightarrow> error + loop_state" where
  "visit_slot pf wordlen_dist skp total_ks_cnt pw_len st =
     (let db = st_db st;
          db_entry = db pw_len;
          pw_buf = (pw_buf_init pf)[pw_len := CHR 0x0A]
      in
      if \<not> elems_pos db_entry < elems_cnt db_entry then Inl ElemIndexOutOfRange
      else
        let elem_buf = elems_buf db_entry ! elems_pos db_entry;
            iter_max0 = ks_cnt elem_buf - ks_pos elem_buf;
            wc = wordlen_dist pw_len;
            iter_max1 = (if iter_max0 > int wc then int wc else iter_max0);
            total_ks_left = total_ks_cnt - st_total_ks_pos st;
            iter_max = (if total_ks_left < iter_max1 then total_ks_left else iter_max1);
            iter_max_u64 = mpz_get_ui iter_max
        in
        (case iter_loop (BUFSIZ pf) db (buf elem_buf) pw_len skp (ks_pos elem_buf)
                iter_max_u64 0 (st_out st, st_total_ks_pos st, pw_buf) of
           Inl e \<Rightarrow> Inl e
         | Inr (out, total_ks_pos, pw_buf') \<Rightarrow>
             let out' = out_flush out;
                 elem_buf' = elem_buf\<lparr>ks_pos := ks_pos elem_buf + iter_max\<rparr>;
                 db_entry' =
                   (if ks_pos elem_buf' = ks_cnt elem_buf'
                    then db_entry\<lparr>elems_buf :=
                             (elems_buf db_entry)[elems_pos db_entry := elem_buf'\<lparr>ks_pos := 0\<rparr>],
                           elems_pos := Suc (elems_pos db_entry)\<rparr>
                    else db_entry\<lparr>elems_buf :=
                             (elems_buf db_entry)[elems_pos db_entry := elem_buf']\<rparr>)
             in Inr \<lparr>st_db = db(pw_len := db_entry'), st_out = out',
                      st_total_ks_pos = total_ks_pos\<rparr>))"

fun round_loop ::
  "platform \<Rightarrow> (nat \<Rightarrow> nat) \<Rightarrow> int \<Rightarrow> int \<Rightarrow> pw_order_t list \<Rightarrow> loop_state
     \<Rightarrow> error + loop_state" where
  "round_loop pf wordlen_dist skp total_ks_cnt [] st = Inr st"
| "round_loop pf wordlen_dist skp total_ks_cnt (pw_order # rest) st =
     (let pw_len = len pw_order; db_entry = st_db st pw_len in
      if elems_pos db_entry = elems_cnt db_entry
        then round_loop pf wordlen_dist skp total_ks_cnt rest st
      else
        (case visit_slot pf wordlen_dist skp total_ks_cnt pw_len st of
           Inl e \<Rightarrow> Inl e
         | Inr st' \<Rightarrow>
             if st_total_ks_pos st' = total_ks_cnt then Inr st'
             else round_loop pf wordlen_dist skp total_ks_cnt rest st'))"

text \<open>
  The outer \<open>while\<close> loop may run forever, so it takes fuel: one unit for each pass
  over the length order, and \<open>OutOfFuel\<close> when the loop has not ended by then.
\<close>

fun main_loop ::
  "nat \<Rightarrow> platform \<Rightarrow> (nat \<Rightarrow> nat) \<Rightarrow> int \<Rightarrow> int \<Rightarrow> pw_order_t list \<Rightarrow> loop_state
     \<Rightarrow> error + loop_state" where
  "main_loop 0 pf wordlen_dist skp total_ks_cnt pw_orders st =
     (if st_total_ks_pos st < total_ks_cnt then Inl OutOfFuel else Inr st)"
| "main_loop (Suc fuel) pf wordlen_dist skp total_ks_cnt pw_orders st =
     (if st_total_ks_pos st < total_ks_cnt then
        (case round_loop pf wordlen_dist skp total_ks_cnt pw_orders st of
           Inl e \<Rightarrow> Inl e
         | Inr st' \<Rightarrow> main_loop fuel pf wordlen_dist skp total_ks_cnt pw_orders st')
      else Inr st)"

subsection \<open>main\<close>

datatype result = Keyspace int | Candidates string

text \<open>
  \<open>setup_db\<close> is \<open>main\<close> from the loading of the words to the end of the keyspace
  calculation; it gives the table and \<open>total_ks_cnt\<close>.
\<close>

definition setup_db :: "params \<Rightarrow> string list \<Rightarrow> db_entries \<times> int" where
  "setup_db p ls =
     calc_ks (nat (pw_min p)) (nat (pw_max p))
       (init_elems (nat (pw_min p)) (nat (pw_max p)) (elem_cnt_min p) (elem_cnt_max p)
          (load_words ls))"

definition main :: "platform \<Rightarrow> nat \<Rightarrow> params \<Rightarrow> string list \<Rightarrow> error + result" where
  "main pf fuel p ls =
     (case check_params p of
        Some msg \<Rightarrow> Inl (Usage msg)
      | None \<Rightarrow>
          let pmin = nat (pw_min p); pmax = nat (pw_max p);
              (db1, total_ks_cnt) = setup_db p ls;
              wordlen_dist = calc_wordlen_dist (wl_dist_len p) db1
          in
          if keyspace p then Inr (Keyspace total_ks_cnt)
          else
            let db2 = sort_elems pf pmin pmax db1;
                pw_orders = sort_pw_orders pf pmin pmax db2
            in
            (case check_window (skip p) (limit p) total_ks_cnt of
               Inl e \<Rightarrow> Inl e
             | Inr total_ks_cnt' \<Rightarrow>
                 (case main_loop fuel pf wordlen_dist (skip p) total_ks_cnt' pw_orders
                         \<lparr>st_db = db2, st_out = out_init, st_total_ks_pos = 0\<rparr> of
                    Inl e \<Rightarrow> Inl e
                  | Inr st \<Rightarrow> Inr (Candidates (fp (st_out st))))))"

section \<open>Specification-level notions\<close>

text \<open>
  The little-endian mixed-radix digits of \<open>p\<close> over the radices \<open>rs\<close>: the first digit
  is \<open>p mod r\<close>, then \<open>p\<close> is divided by \<open>r\<close>. \<open>chain_words db b p\<close> are the words
  these digits select in the buckets of the chain \<open>b\<close>.
\<close>

fun mixed_radix :: "int list \<Rightarrow> int \<Rightarrow> int list" where
  "mixed_radix [] p = []"
| "mixed_radix (r # rs) p = (p mod r) # mixed_radix rs (p div r)"

definition chain_words :: "db_entries \<Rightarrow> nat list \<Rightarrow> int \<Rightarrow> string list" where
  "chain_words db b p =
     map2 (\<lambda>k d. words_buf (db k) ! nat d) b (mixed_radix (map (\<lambda>k. int (words_cnt (db k))) b) p)"

text \<open>Every word of bucket \<open>k\<close> has \<open>k\<close> bytes, and only buckets up to 16 are filled.\<close>

definition words_wf :: "db_entries \<Rightarrow> bool" where
  "words_wf db \<longleftrightarrow> (\<forall>k. \<forall>w \<in> set (words_buf (db k)). length w = k \<and> k \<le> IN_LEN_MAX)"

definition new_elem :: "nat list \<Rightarrow> elem_t" where
  "new_elem b = \<lparr>buf = b, ks_cnt = 0, ks_pos = 0\<rparr>"

definition chain_ok :: "db_entries \<Rightarrow> int \<Rightarrow> int \<Rightarrow> nat list \<Rightarrow> bool" where
  "chain_ok db ecmin ecmax b \<longleftrightarrow>
     elem_valid_with_db b db \<and> elem_valid_with_cnt_min b ecmin \<and> elem_valid_with_cnt_max b ecmax"

definition gen_chains :: "db_entries \<Rightarrow> int \<Rightarrow> int \<Rightarrow> nat \<Rightarrow> nat list list" where
  "gen_chains db ecmin ecmax n =
     filter (chain_ok db ecmin ecmax) (map (elem_gen_with_idx (n - 1)) [0 ..< 2 ^ (n - 1)])"

definition same_words :: "db_entries \<Rightarrow> db_entries \<Rightarrow> bool" where
  "same_words db' db \<longleftrightarrow> (\<forall>k. words_buf (db' k) = words_buf (db k))"

definition with_ks :: "db_entries \<Rightarrow> elem_t \<Rightarrow> elem_t" where
  "with_ks db e = e\<lparr>ks_cnt := ks_cnt e + elem_ks (buf e) db\<rparr>"

definition stored_elem :: "db_entries \<Rightarrow> nat list \<Rightarrow> elem_t" where
  "stored_elem db b = \<lparr>buf = b, ks_cnt = elem_ks b db, ks_pos = 0\<rparr>"

text \<open>
  Two sorting procedures for the \<open>qsort\<close> of a platform. Both insert the elements from
  the right into the sorted rest; \<open>qsort_stable\<close> puts an element before the elements it
  does not compare greater than (the result of a merge sort as in glibc, which keeps equal
  elements in their order), \<open>qsort_unstable\<close> puts it behind the elements it compares
  equal to (equal elements end up in reverse order).
\<close>

fun insert_le :: "('a \<Rightarrow> 'a \<Rightarrow> int) \<Rightarrow> 'a \<Rightarrow> 'a list \<Rightarrow> 'a list" where
  "insert_le cmp x [] = [x]"
| "insert_le cmp x (y # ys) = (if cmp x y \<le> 0 then x # y # ys else y # insert_le cmp x ys)"

fun insert_lt :: "('a \<Rightarrow> 'a \<Rightarrow> int) \<Rightarrow> 'a \<Rightarrow> 'a list \<Rightarrow> 'a list" where
  "insert_lt cmp x [] = [x]"
| "insert_lt cmp x (y # ys) = (if cmp x y < 0 then x # y # ys else y # insert_lt cmp x ys)"

definition qsort_stable :: "('a \<Rightarrow> 'a \<Rightarrow> int) \<Rightarrow> 'a list \<Rightarrow> 'a list" where
  "qsort_stable cmp xs = foldr (insert_le cmp) xs []"

definition qsort_unstable :: "('a \<Rightarrow> 'a \<Rightarrow> int) \<Rightarrow> 'a list \<Rightarrow> 'a list" where
  "qsort_unstable cmp xs = foldr (insert_lt cmp) xs []"

definition platform_stable :: platform where
  "platform_stable =
     \<lparr>BUFSIZ = 256, pw_buf_init = replicate 256 (CHR 0x00),
      qsort_elems = qsort_stable, qsort_orders = qsort_stable\<rparr>"

definition platform_unstable :: platform where
  "platform_unstable =
     \<lparr>BUFSIZ = 256, pw_buf_init = replicate 256 (CHR 0x00),
      qsort_elems = qsort_unstable, qsort_orders = qsort_stable\<rparr>"

text \<open>The default options of the program.\<close>

definition default_params :: params where
  "default_params =
     \<lparr>pw_min = 1, pw_max = 16, elem_cnt_min = 1, elem_cnt_max = 8, wl_dist_len = False,
      keyspace = False, skip = 0, limit = 0\<rparr>"

text \<open>
  What the C standard asks of \<open>qsort\<close> for the comparison function \<open>cmp\<close>: the result
  is a rearrangement of the array in which no element stands before one it compares
  greater than. The order of elements that compare equal is left open.
\<close>

definition qsort_sorts :: "(('a \<Rightarrow> 'a \<Rightarrow> int) \<Rightarrow> 'a list \<Rightarrow> 'a list) \<Rightarrow> ('a \<Rightarrow> 'a \<Rightarrow> int) \<Rightarrow> bool" where
  "qsort_sorts qs cmp \<longleftrightarrow>
     (\<forall>xs. mset (qs cmp xs) = mset xs \<and> sorted_wrt (\<lambda>a b. cmp a b \<le> 0) (qs cmp xs))"

text \<open>
  The canonical decoding in the words of the specification: walk the split bits with
  \<open>current\<close> starting at 1; a set bit emits \<open>current\<close> and resets it to 1, a clear bit
  increments it; the trailing \<open>current\<close> is emitted at the end.
\<close>

fun decode_bits :: "bool list \<Rightarrow> nat \<Rightarrow> nat list" where
  "decode_bits [] current = [current]"
| "decode_bits (True # bs) current = current # decode_bits bs 1"
| "decode_bits (False # bs) current = decode_bits bs (Suc current)"

definition split_bits :: "nat \<Rightarrow> nat \<Rightarrow> nat \<Rightarrow> bool list" where
  "split_bits idx s len1 = map (\<lambda>t. (idx div 2 ^ t) mod 2 = 1) [s ..< len1]"

definition canonical_decode :: "nat \<Rightarrow> nat \<Rightarrow> nat list" where
  "canonical_decode n idx = decode_bits (split_bits idx 0 (n - 1)) 1"

definition compositions :: "nat \<Rightarrow> nat list set" where
  "compositions n = {c. sum_list c = n \<and> (\<forall>k \<in> set c. 0 < k)}"

text \<open>
  The candidate line of chain \<open>b\<close> at local position \<open>p\<close>, and the lines of a batch of
  \<open>c\<close> positions from \<open>ks_pos\<close> on.
\<close>

definition cand_line :: "db_entries \<Rightarrow> nat list \<Rightarrow> int \<Rightarrow> string" where
  "cand_line db b p = concat (chain_words db b p) @ [CHR 0x0A]"

definition lines_from :: "db_entries \<Rightarrow> nat list \<Rightarrow> int \<Rightarrow> nat \<Rightarrow> nat \<Rightarrow> string list" where
  "lines_from db b kp i c = map (\<lambda>j. cand_line db b (kp + int j)) [i ..< i + c]"

definition out_bytes :: "out_t \<Rightarrow> string" where
  "out_bytes out = fp out @ obuf out"

definition out_inv :: "int \<Rightarrow> out_t \<Rightarrow> bool" where
  "out_inv bufsiz out \<longleftrightarrow> out_len out = 0 \<or> out_len out < bufsiz - 100"

text \<open>
  An abstract view of the loop, without buffers and errors: \<open>iter_max_of\<close> is the batch
  size, \<open>advance\<close> the update of the slot after a batch, and \<open>a_visit\<close> gives the new
  table and global position together with the lines of all positions visited.
\<close>

definition iter_max_of :: "(nat \<Rightarrow> nat) \<Rightarrow> int \<Rightarrow> int \<Rightarrow> elem_t \<Rightarrow> nat \<Rightarrow> int" where
  "iter_max_of wd T tpos e n = min (min (ks_cnt e - ks_pos e) (int (wd n))) (T - tpos)"

definition advance :: "db_entry_t \<Rightarrow> int \<Rightarrow> db_entry_t" where
  "advance entry im =
     (let e = elems_buf entry ! elems_pos entry; e' = e\<lparr>ks_pos := ks_pos e + im\<rparr> in
      if ks_pos e' = ks_cnt e'
      then entry\<lparr>elems_buf := (elems_buf entry)[elems_pos entry := e'\<lparr>ks_pos := 0\<rparr>],
                 elems_pos := Suc (elems_pos entry)\<rparr>
      else entry\<lparr>elems_buf := (elems_buf entry)[elems_pos entry := e']\<rparr>)"

definition a_visit ::
  "(nat \<Rightarrow> nat) \<Rightarrow> int \<Rightarrow> nat \<Rightarrow> db_entries \<times> int \<Rightarrow> (db_entries \<times> int) \<times> string list" where
  "a_visit wd T n s =
     (let db = fst s; tpos = snd s;
          e = elems_buf (db n) ! elems_pos (db n);
          im = iter_max_of wd T tpos e n
      in ((db(n := advance (db n) im), tpos + im), lines_from db (buf e) (ks_pos e) 0 (nat im)))"

definition slot_ok :: "db_entries \<Rightarrow> nat \<Rightarrow> bool" where
  "slot_ok db n \<longleftrightarrow>
     n \<le> 16 \<and> elems_pos (db n) \<le> length (elems_buf (db n))
     \<and> (\<forall>e \<in> set (elems_buf (db n)).
           0 \<le> ks_pos e \<and> ks_pos e < ks_cnt e \<and> elem_valid_with_db (buf e) db
           \<and> sum_list (buf e) = n)"

definition platform_ok :: "platform \<Rightarrow> bool" where
  "platform_ok pf \<longleftrightarrow>
     17 \<le> BUFSIZ pf \<and> length (pw_buf_init pf) = nat (BUFSIZ pf)
     \<and> (\<forall>xs. mset (qsort_elems pf sort_by_ks xs) = mset xs)
     \<and> (\<forall>xs. mset (qsort_orders pf sort_by_cnt xs) = mset xs)"

fun a_round ::
  "(nat \<Rightarrow> nat) \<Rightarrow> int \<Rightarrow> pw_order_t list \<Rightarrow> db_entries \<times> int
     \<Rightarrow> (db_entries \<times> int) \<times> string list" where
  "a_round wd T [] s = (s, [])"
| "a_round wd T (pw_order # rest) s =
     (let n = len pw_order in
      if elems_pos (fst s n) = elems_cnt (fst s n) then a_round wd T rest s
      else
        let r1 = a_visit wd T n s in
        if snd (fst r1) = T then r1
        else let r2 = a_round wd T rest (fst r1) in (fst r2, snd r1 @ snd r2))"

fun a_main ::
  "nat \<Rightarrow> (nat \<Rightarrow> nat) \<Rightarrow> int \<Rightarrow> pw_order_t list \<Rightarrow> db_entries \<times> int
     \<Rightarrow> ((db_entries \<times> int) \<times> string list) option" where
  "a_main 0 wd T os s = (if snd s < T then None else Some (s, []))"
| "a_main (Suc fuel) wd T os s =
     (if snd s < T then
        (let r1 = a_round wd T os s in
         case a_main fuel wd T os (fst r1) of
           None \<Rightarrow> None
         | Some r2 \<Rightarrow> Some (fst r2, snd r1 @ snd r2))
      else Some (s, []))"

definition db_ok :: "nat set \<Rightarrow> (nat \<Rightarrow> nat) \<Rightarrow> db_entries \<Rightarrow> bool" where
  "db_ok L wd db \<longleftrightarrow> words_wf db \<and> (\<forall>n \<in> L. slot_ok db n \<and> int (wd n) < 2 ^ 64)"

text \<open>What a visit, a round or a run of rounds keeps: \<open>r\<close> is its result from \<open>(db, tpos)\<close>.\<close>

definition step_ok ::
  "nat set \<Rightarrow> (nat \<Rightarrow> nat) \<Rightarrow> int \<Rightarrow> db_entries \<Rightarrow> int \<Rightarrow> (db_entries \<times> int) \<times> string list \<Rightarrow> bool" where
  "step_ok L wd T db tpos r \<longleftrightarrow>
     db_ok L wd (fst (fst r)) \<and> tpos \<le> snd (fst r) \<and> snd (fst r) \<le> T
     \<and> length (snd r) = nat (snd (fst r) - tpos) \<and> same_words (fst (fst r)) db"

text \<open>
  The state of the program's loop that corresponds to an abstract result \<open>r\<close> reached
  from position \<open>tpos\<close> with output \<open>out\<close>: of the lines visited, those at global
  positions from \<open>skip\<close> on have been written.
\<close>

definition loop_result ::
  "out_t \<Rightarrow> int \<Rightarrow> int \<Rightarrow> (db_entries \<times> int) \<times> string list \<Rightarrow> loop_state" where
  "loop_result out skp tpos r =
     \<lparr>st_db = fst (fst r),
      st_out = \<lparr>fp = fp out @ concat (drop (nat (skp - tpos)) (snd r)), obuf = []\<rparr>,
      st_total_ks_pos = snd (fst r)\<rparr>"

text \<open>
  The keyspace that is left in a slot (the chains from \<open>elems_pos\<close> on, less the
  position reached in each) and in the slots of the lengths \<open>ls\<close>.
\<close>

definition slot_rem :: "db_entry_t \<Rightarrow> int" where
  "slot_rem entry =
     sum_list (map (\<lambda>e. ks_cnt e - ks_pos e) (drop (elems_pos entry) (elems_buf entry)))"

definition ks_rem :: "nat list \<Rightarrow> db_entries \<Rightarrow> int" where
  "ks_rem ls db = sum_list (map (\<lambda>n. slot_rem (db n)) ls)"

definition rem_ok :: "nat list \<Rightarrow> int \<Rightarrow> db_entries \<times> int \<Rightarrow> bool" where
  "rem_ok ls T s \<longleftrightarrow> T - snd s \<le> ks_rem ls (fst s)"

text \<open>The table at the start of the loop.\<close>

definition start_db :: "platform \<Rightarrow> params \<Rightarrow> string list \<Rightarrow> db_entries" where
  "start_db pf p ls = sort_elems pf (nat (pw_min p)) (nat (pw_max p)) (fst (setup_db p ls))"

text \<open>
  The batch bound of every length in range is positive and fits 64 bits. This holds
  without \<open>wl-dist-len\<close> (the built-in distribution), and with it when no bucket of a
  length in range is empty.
\<close>

definition batch_bounds_ok :: "params \<Rightarrow> string list \<Rightarrow> bool" where
  "batch_bounds_ok p ls \<longleftrightarrow>
     (\<forall>n \<in> {nat (pw_min p) .. nat (pw_max p)}.
        0 < calc_wordlen_dist (wl_dist_len p) (fst (setup_db p ls)) n
        \<and> int (calc_wordlen_dist (wl_dist_len p) (fst (setup_db p ls)) n) < 2 ^ 64)"

text \<open>
  The abstract run of the loop from the start of the program, with effective total \<open>T\<close>:
  its lines are the candidates at the global positions \<open>0, 1, ..., T - 1\<close>.
\<close>

definition run_lines ::
  "platform \<Rightarrow> nat \<Rightarrow> params \<Rightarrow> string list \<Rightarrow> int
     \<Rightarrow> ((db_entries \<times> int) \<times> string list) option" where
  "run_lines pf fuel p ls T =
     a_main fuel (calc_wordlen_dist (wl_dist_len p) (fst (setup_db p ls))) T
       (sort_pw_orders pf (nat (pw_min p)) (nat (pw_max p)) (start_db pf p ls))
       (start_db pf p ls, 0)"

section \<open>Properties of the writer\<close>

lemma out_push_small:
  assumes "17 \<le> bufsiz" "int (length line) \<le> 17"
    and "out_len out = 0 \<or> out_len out < bufsiz - 100"
  shows "\<exists>out'. out_push bufsiz out line = Inr out'
           \<and> (out_len out' = 0 \<or> out_len out' < bufsiz - 100)"
  using assms by (auto simp: out_push_def out_len_def out_flush_def Let_def)

lemma out_flush_len: "out_len (out_flush out) = 0"
  by (simp add: out_flush_def out_len_def)

lemma out_run_safe:
  assumes "17 \<le> bufsiz"
    and "\<forall>l. Push l \<in> set ops \<longrightarrow> length l \<le> 17"
    and "out_len out = 0 \<or> out_len out < bufsiz - 100"
  shows "\<exists>out'. out_run bufsiz out ops = Inr out'
           \<and> (out_len out' = 0 \<or> out_len out' < bufsiz - 100)"
  using assms
proof (induction ops arbitrary: out)
  case Nil
  then show ?case by simp
next
  case (Cons a ops)
  show ?case
  proof (cases a)
    case (Push l)
    with Cons.prems have "int (length l) \<le> 17" by simp
    from out_push_small [OF Cons.prems(1) this Cons.prems(3)]
    obtain o1 where o1: "out_push bufsiz out l = Inr o1"
      "out_len o1 = 0 \<or> out_len o1 < bufsiz - 100" by blast
    from Cons.IH [OF Cons.prems(1) _ o1(2)] Cons.prems(2)
    show ?thesis using Push o1(1) by simp
  next
    case Flush
    have "out_len (out_flush out) = 0 \<or> out_len (out_flush out) < bufsiz - 100"
      by (simp add: out_flush_len)
    from Cons.IH [OF Cons.prems(1) _ this] Cons.prems(2)
    show ?thesis using Flush by simp
  qed
qed

section \<open>Properties of the materializer\<close>

lemma elem_valid_iff: "elem_valid_with_db b db \<longleftrightarrow> (\<forall>k\<in>set b. 0 < words_cnt (db k))"
  by (induction b) auto

lemma elem_set_pwbuf_safe:
  "elem_valid_with_db b db \<Longrightarrow>
     elem_set_pwbuf b db p off pw \<noteq> Inl DivByZero
   \<and> elem_set_pwbuf b db p off pw \<noteq> Inl WordIndexOutOfRange"
proof (induction b arbitrary: p off pw)
  case Nil
  then show ?case by simp
next
  case (Cons k ks)
  then have wc: "0 < words_cnt (db k)" and v: "elem_valid_with_db ks db"
    by (auto split: if_splits)
  have idx: "nat (p mod int (words_cnt (db k))) < words_cnt (db k)"
    using wc by (simp add: nat_less_iff)
  show ?case using wc idx Cons.IH [OF v]
    by (auto simp: Let_def memcpy_at_def split: sum.splits)
qed

lemma chain_words_Cons:
  "chain_words db (k # ks) p =
     (words_buf (db k) ! nat (p mod int (words_cnt (db k)))) # chain_words db ks (p div int (words_cnt (db k)))"
  by (simp add: chain_words_def)

lemma chain_words_Nil: "chain_words db [] p = []"
  by (simp add: chain_words_def)

lemma elem_set_pwbuf_result:
  assumes "words_wf db" "elem_valid_with_db b db" "off + sum_list b \<le> length pw"
  shows "elem_set_pwbuf b db p off pw =
           Inr (take off pw @ concat (chain_words db b p) @ drop (off + sum_list b) pw)"
  using assms(2,3)
proof (induction b arbitrary: p off pw)
  case Nil
  then show ?case by (simp add: chain_words_Nil)
next
  case (Cons k ks)
  let ?wc = "words_cnt (db k)"
  let ?w = "words_buf (db k) ! nat (p mod int ?wc)"
  from Cons.prems have wc: "0 < ?wc" and v: "elem_valid_with_db ks db"
    by (auto split: if_splits)
  have idx: "nat (p mod int ?wc) < ?wc"
    using wc by (simp add: nat_less_iff)
  then have "?w \<in> set (words_buf (db k))" by (simp add: words_cnt_def)
  with assms(1) have lw: "length ?w = k" by (auto simp: words_wf_def)
  have fit: "off + k \<le> length pw" using Cons.prems(2) by simp
  define pw1 where "pw1 = take off pw @ ?w @ drop (off + k) pw"
  have m: "memcpy_at pw off (word_t_buf ?w) k = Inr pw1"
    using fit lw by (simp add: memcpy_at_def word_t_buf_def pw1_def)
  have len1: "length pw1 = length pw" using fit lw by (simp add: pw1_def)
  have rest: "off + k + sum_list ks \<le> length pw1" using Cons.prems(2) len1 by simp
  have tk: "take (off + k) pw1 = take off pw @ ?w"
    using fit lw by (simp add: pw1_def)
  have dr: "drop (off + (k + sum_list ks)) pw1 = drop (off + (k + sum_list ks)) pw"
    using fit lw by (simp add: pw1_def ac_simps)
  have e1: "elem_set_pwbuf (k # ks) db p off pw = elem_set_pwbuf ks db (p div int ?wc) (off + k) pw1"
    using wc idx m by (simp add: Let_def)
  have e2: "elem_set_pwbuf ks db (p div int ?wc) (off + k) pw1 =
              Inr (take (off + k) pw1 @ concat (chain_words db ks (p div int ?wc))
                        @ drop (off + k + sum_list ks) pw1)"
    by (rule Cons.IH [OF v rest])
  show ?case unfolding e1 e2
    by (simp add: tk dr chain_words_Cons add.assoc)
qed

lemma length_concat_chain_words:
  assumes "words_wf db" "elem_valid_with_db b db"
  shows "length (concat (chain_words db b p)) = sum_list b"
  using assms(2)
proof (induction b arbitrary: p)
  case Nil
  then show ?case by (simp add: chain_words_Nil)
next
  case (Cons k ks)
  let ?wc = "words_cnt (db k)"
  let ?w = "words_buf (db k) ! nat (p mod int ?wc)"
  from Cons.prems have wc: "0 < ?wc" and v: "elem_valid_with_db ks db"
    by (auto split: if_splits)
  have idx: "nat (p mod int ?wc) < ?wc"
    using wc by (simp add: nat_less_iff)
  then have "?w \<in> set (words_buf (db k))" by (simp add: words_cnt_def)
  with assms(1) have lw: "length ?w = k" by (auto simp: words_wf_def)
  show ?case using Cons.IH [OF v] lw by (simp add: chain_words_Cons)
qed

section \<open>Properties of the setup\<close>

lemma same_words_refl: "same_words db db"
  by (simp add: same_words_def)

lemma same_words_upd_elems:
  "same_words (db(n := (db n)\<lparr>elems_buf := es\<rparr>)) db"
  by (simp add: same_words_def)

lemma same_words_cnt: "same_words db' db \<Longrightarrow> words_cnt (db' k) = words_cnt (db k)"
  by (simp add: same_words_def words_cnt_def)

lemma elem_valid_same_words:
  "same_words db' db \<Longrightarrow> elem_valid_with_db b db' = elem_valid_with_db b db"
  by (simp add: elem_valid_iff same_words_cnt)

lemma chain_ok_same_words:
  "same_words db' db \<Longrightarrow> chain_ok db' a c = chain_ok db a c"
  by (rule ext) (simp add: chain_ok_def elem_valid_same_words)

lemma gen_chains_same_words:
  "same_words db' db \<Longrightarrow> gen_chains db' a c n = gen_chains db a c n"
  by (simp add: gen_chains_def chain_ok_same_words)

lemma elem_ks_loop_same_words:
  "same_words db' db \<Longrightarrow> elem_ks_loop b db' k = elem_ks_loop b db k"
  by (induction b arbitrary: k) (simp_all add: same_words_cnt)

lemma elem_ks_same_words:
  "same_words db' db \<Longrightarrow> elem_ks b db' = elem_ks b db"
  by (simp add: elem_ks_def elem_ks_loop_same_words)

lemma init_elem_step_eq:
  "init_elem_step a c n db i =
     (if chain_ok db a c (elem_gen_with_idx (n - 1) i)
      then db(n := (db n)\<lparr>elems_buf := elems_buf (db n) @ [new_elem (elem_gen_with_idx (n - 1) i)]\<rparr>)
      else db)"
  by (simp add: init_elem_step_def chain_ok_def add_elem_def new_elem_def Let_def)

lemma foldl_init_elem_step:
  "foldl (init_elem_step a c n) db is =
     db(n := (db n)\<lparr>elems_buf := elems_buf (db n)
          @ map new_elem (filter (chain_ok db a c) (map (elem_gen_with_idx (n - 1)) is))\<rparr>)"
proof (induction "is" arbitrary: db)
  case Nil
  then show ?case by simp
next
  case (Cons i "is")
  show ?case
  proof (cases "chain_ok db a c (elem_gen_with_idx (n - 1) i)")
    case True
    define db1 where "db1 = db(n := (db n)\<lparr>elems_buf := elems_buf (db n) @ [new_elem (elem_gen_with_idx (n - 1) i)]\<rparr>)"
    have sw: "same_words db1 db" unfolding db1_def by (rule same_words_upd_elems)
    have st: "init_elem_step a c n db i = db1"
      using True by (simp add: init_elem_step_eq db1_def)
    show ?thesis
      using True by (simp add: st Cons.IH chain_ok_same_words [OF sw]) (auto simp: db1_def fun_eq_iff)
  next
    case False
    then have st: "init_elem_step a c n db i = db"
      by (simp add: init_elem_step_eq)
    show ?thesis using False by (simp add: st Cons.IH)
  qed
qed

lemma init_elems_len_eq:
  "init_elems_len a c db n =
     db(n := (db n)\<lparr>elems_buf := elems_buf (db n) @ map new_elem (gen_chains db a c n)\<rparr>)"
  by (simp add: init_elems_len_def foldl_init_elem_step gen_chains_def)

lemma foldl_init_elems_len:
  "distinct ns \<Longrightarrow>
   foldl (init_elems_len a c) db ns =
     (\<lambda>k. if k \<in> set ns
          then (db k)\<lparr>elems_buf := elems_buf (db k) @ map new_elem (gen_chains db a c k)\<rparr>
          else db k)"
proof (induction ns arbitrary: db)
  case Nil
  then show ?case by simp
next
  case (Cons n ns)
  define db1 where "db1 = init_elems_len a c db n"
  have db1: "db1 = db(n := (db n)\<lparr>elems_buf := elems_buf (db n) @ map new_elem (gen_chains db a c n)\<rparr>)"
    by (simp add: db1_def init_elems_len_eq)
  have sw: "same_words db1 db" unfolding db1 by (rule same_words_upd_elems)
  from Cons.prems have d: "distinct ns" and nn: "n \<notin> set ns" by simp_all
  have "foldl (init_elems_len a c) db (n # ns) = foldl (init_elems_len a c) db1 ns"
    by (simp add: db1_def)
  also have "\<dots> = (\<lambda>k. if k \<in> set ns
          then (db1 k)\<lparr>elems_buf := elems_buf (db1 k) @ map new_elem (gen_chains db1 a c k)\<rparr>
          else db1 k)"
    by (rule Cons.IH [OF d])
  also have "\<dots> = (\<lambda>k. if k \<in> set (n # ns)
          then (db k)\<lparr>elems_buf := elems_buf (db k) @ map new_elem (gen_chains db a c k)\<rparr>
          else db k)"
    using nn by (auto simp: fun_eq_iff gen_chains_same_words [OF sw [unfolded db1]] db1)
  finally show ?case .
qed

lemma init_elems_eq:
  "init_elems pmin pmax a c db =
     (\<lambda>k. if pmin \<le> k \<and> k \<le> pmax
          then (db k)\<lparr>elems_buf := elems_buf (db k) @ map new_elem (gen_chains db a c k)\<rparr>
          else db k)"
  by (auto simp: init_elems_def foldl_init_elems_len fun_eq_iff)

lemma calc_ks_elems_eq:
  "calc_ks_elems db es t =
     (map (with_ks db) es, t + sum_list (map (\<lambda>e. elem_ks (buf e) db) es))"
  by (induction es arbitrary: t) (simp_all add: Let_def with_ks_def)

lemma calc_ks_len_eq:
  "calc_ks_len (db, t) n =
     (db(n := (db n)\<lparr>elems_buf := map (with_ks db) (elems_buf (db n))\<rparr>),
      t + sum_list (map (\<lambda>e. elem_ks (buf e) db) (elems_buf (db n))))"
  by (simp add: calc_ks_len_def calc_ks_elems_eq)

lemma with_ks_same_words: "same_words db' db \<Longrightarrow> with_ks db' = with_ks db"
  by (rule ext) (simp add: with_ks_def elem_ks_same_words)

lemma foldl_calc_ks_len:
  "distinct ns \<Longrightarrow>
   foldl calc_ks_len (db, t) ns =
     ((\<lambda>k. if k \<in> set ns then (db k)\<lparr>elems_buf := map (with_ks db) (elems_buf (db k))\<rparr> else db k),
      t + sum_list (map (\<lambda>n. sum_list (map (\<lambda>e. elem_ks (buf e) db) (elems_buf (db n)))) ns))"
proof (induction ns arbitrary: db t)
  case Nil
  then show ?case by simp
next
  case (Cons n ns)
  define db1 where "db1 = db(n := (db n)\<lparr>elems_buf := map (with_ks db) (elems_buf (db n))\<rparr>)"
  define t1 where "t1 = t + sum_list (map (\<lambda>e. elem_ks (buf e) db) (elems_buf (db n)))"
  have sw: "same_words db1 db" unfolding db1_def by (rule same_words_upd_elems)
  from Cons.prems have d: "distinct ns" and nn: "n \<notin> set ns" by simp_all
  have other: "\<And>k. k \<in> set ns \<Longrightarrow> db1 k = db k" using nn by (auto simp: db1_def)
  have "foldl calc_ks_len (db, t) (n # ns) = foldl calc_ks_len (db1, t1) ns"
    by (simp add: calc_ks_len_eq db1_def t1_def)
  also have "\<dots> = ((\<lambda>k. if k \<in> set ns then (db1 k)\<lparr>elems_buf := map (with_ks db1) (elems_buf (db1 k))\<rparr> else db1 k),
      t1 + sum_list (map (\<lambda>n. sum_list (map (\<lambda>e. elem_ks (buf e) db1) (elems_buf (db1 n)))) ns))"
    by (rule Cons.IH [OF d])
  also have "\<dots> = ((\<lambda>k. if k \<in> set (n # ns) then (db k)\<lparr>elems_buf := map (with_ks db) (elems_buf (db k))\<rparr> else db k),
      t + sum_list (map (\<lambda>n. sum_list (map (\<lambda>e. elem_ks (buf e) db) (elems_buf (db n)))) (n # ns)))"
  proof -
    have a: "(\<lambda>k. if k \<in> set ns then (db1 k)\<lparr>elems_buf := map (with_ks db1) (elems_buf (db1 k))\<rparr> else db1 k)
           = (\<lambda>k. if k \<in> set (n # ns) then (db k)\<lparr>elems_buf := map (with_ks db) (elems_buf (db k))\<rparr> else db k)"
      using nn by (auto simp: fun_eq_iff with_ks_same_words [OF sw [unfolded db1_def]] db1_def)
    have b: "map (\<lambda>n. sum_list (map (\<lambda>e. elem_ks (buf e) db1) (elems_buf (db1 n)))) ns
           = map (\<lambda>n. sum_list (map (\<lambda>e. elem_ks (buf e) db) (elems_buf (db n)))) ns"
      by (rule map_cong) (simp_all add: other elem_ks_same_words [OF sw])
    show ?thesis by (simp add: a b t1_def)
  qed
  finally show ?case .
qed

lemma calc_ks_eq:
  "calc_ks pmin pmax db =
     ((\<lambda>k. if pmin \<le> k \<and> k \<le> pmax then (db k)\<lparr>elems_buf := map (with_ks db) (elems_buf (db k))\<rparr> else db k),
      sum_list (map (\<lambda>n. sum_list (map (\<lambda>e. elem_ks (buf e) db) (elems_buf (db n)))) [pmin ..< Suc pmax]))"
  by (auto simp: calc_ks_def foldl_calc_ks_len fun_eq_iff)

lemma add_word_words_wf: "words_wf db \<Longrightarrow> words_wf (add_word db l)"
  by (auto simp: words_wf_def add_word_def Let_def)

lemma foldl_add_word_wf: "words_wf db \<Longrightarrow> words_wf (foldl add_word db ls)"
  by (induction ls arbitrary: db) (simp_all add: add_word_words_wf)

lemma words_wf_load_words: "words_wf (load_words ls)"
  unfolding load_words_def
  by (rule foldl_add_word_wf) (simp add: words_wf_def calloc_db_def)

lemma foldl_add_word_elems:
  "elems_buf (foldl add_word db ls k) = elems_buf (db k) \<and> elems_pos (foldl add_word db ls k) = elems_pos (db k)"
proof (induction ls arbitrary: db)
  case Nil
  then show ?case by simp
next
  case (Cons l ls)
  have "elems_buf (add_word db l k) = elems_buf (db k) \<and> elems_pos (add_word db l k) = elems_pos (db k)"
    by (simp add: add_word_def Let_def)
  with Cons.IH [of "add_word db l"] show ?case by simp
qed

lemma load_words_elems: "elems_buf (load_words ls k) = []" "elems_pos (load_words ls k) = 0"
  using foldl_add_word_elems [of calloc_db ls k]
  by (simp_all add: load_words_def calloc_db_def)

lemma words_wf_same_words: "same_words db' db \<Longrightarrow> words_wf db' = words_wf db"
  by (simp add: words_wf_def same_words_def)

lemma elem_ks_loop_prod:
  "elem_ks_loop b db k = k * prod_list (map (\<lambda>key. int (words_cnt (db key))) b)"
  by (induction b arbitrary: k) (simp_all add: mult.assoc)

lemma elem_ks_prod: "elem_ks b db = prod_list (map (\<lambda>key. int (words_cnt (db key))) b)"
  by (simp add: elem_ks_def elem_ks_loop_prod)

lemma with_ks_new_elem: "with_ks db (new_elem b) = stored_elem db b"
  by (simp add: with_ks_def new_elem_def stored_elem_def)

lemma setup_db_fst:
  "fst (setup_db p ls) =
     (\<lambda>k. if nat (pw_min p) \<le> k \<and> k \<le> nat (pw_max p)
          then (load_words ls k)\<lparr>elems_buf :=
                 map (stored_elem (load_words ls))
                   (gen_chains (load_words ls) (elem_cnt_min p) (elem_cnt_max p) k)\<rparr>
          else load_words ls k)"
proof -
  define db0 where "db0 = load_words ls"
  define dbi where "dbi = init_elems (nat (pw_min p)) (nat (pw_max p)) (elem_cnt_min p) (elem_cnt_max p) db0"
  have sw: "same_words dbi db0"
    by (simp add: dbi_def init_elems_eq same_words_def)
  show ?thesis
    unfolding setup_db_def db0_def [symmetric] dbi_def [symmetric] calc_ks_eq fst_conv
      with_ks_same_words [OF sw]
    by (auto simp: fun_eq_iff dbi_def init_elems_eq db0_def load_words_elems with_ks_new_elem)
qed

lemma setup_db_same_words: "same_words (fst (setup_db p ls)) (load_words ls)"
  by (simp add: setup_db_fst same_words_def)

lemma setup_db_elems:
  "elems_buf (fst (setup_db p ls) n) =
     (if nat (pw_min p) \<le> n \<and> n \<le> nat (pw_max p)
      then map (stored_elem (load_words ls))
             (gen_chains (load_words ls) (elem_cnt_min p) (elem_cnt_max p) n)
      else [])"
  by (simp add: setup_db_fst load_words_elems)

lemma setup_db_snd:
  "snd (setup_db p ls) =
     sum_list (map (\<lambda>n. sum_list (map (\<lambda>b. elem_ks b (load_words ls))
                  (gen_chains (load_words ls) (elem_cnt_min p) (elem_cnt_max p) n)))
        [nat (pw_min p) ..< Suc (nat (pw_max p))])"
proof -
  define db0 where "db0 = load_words ls"
  define dbi where "dbi = init_elems (nat (pw_min p)) (nat (pw_max p)) (elem_cnt_min p) (elem_cnt_max p) db0"
  have sw: "same_words dbi db0"
    by (simp add: dbi_def init_elems_eq same_words_def)
  have e: "\<And>n. n \<in> set [nat (pw_min p) ..< Suc (nat (pw_max p))] \<Longrightarrow>
      elems_buf (dbi n) = map new_elem (gen_chains db0 (elem_cnt_min p) (elem_cnt_max p) n)"
    by (auto simp: dbi_def init_elems_eq db0_def load_words_elems)
  have "snd (setup_db p ls) =
      sum_list (map (\<lambda>n. sum_list (map (\<lambda>e. elem_ks (buf e) dbi) (elems_buf (dbi n))))
         [nat (pw_min p) ..< Suc (nat (pw_max p))])"
    by (simp add: setup_db_def db0_def dbi_def calc_ks_eq)
  also have "\<dots> = sum_list (map (\<lambda>n. sum_list (map (\<lambda>b. elem_ks b db0)
                  (gen_chains db0 (elem_cnt_min p) (elem_cnt_max p) n)))
        [nat (pw_min p) ..< Suc (nat (pw_max p))])"
    by (rule arg_cong [where f = sum_list], rule map_cong)
       (simp_all add: e elem_ks_same_words [OF sw] comp_def new_elem_def)
  finally show ?thesis by (simp add: db0_def)
qed

lemma gen_chains_valid: "b \<in> set (gen_chains db a c n) \<Longrightarrow> elem_valid_with_db b db"
  by (auto simp: gen_chains_def chain_ok_def)

lemma mixed_radix_length: "length (mixed_radix rs p) = length rs"
  by (induction rs arbitrary: p) simp_all

lemma mixed_radix_nth:
  "\<forall>r\<in>set rs. 0 \<le> r \<Longrightarrow> i < length rs \<Longrightarrow>
     mixed_radix rs p ! i = (p div prod_list (take i rs)) mod (rs ! i)"
proof (induction rs arbitrary: p i)
  case Nil
  then show ?case by simp
next
  case (Cons r rs)
  show ?case
  proof (cases i)
    case 0
    then show ?thesis by simp
  next
    case (Suc j)
    with Cons.prems have j: "j < length rs" and nn: "\<forall>r\<in>set rs. 0 \<le> r" by simp_all
    have "0 \<le> prod_list (take j rs)"
      using nn by (intro prod_list_nonneg) (auto dest: in_set_takeD)
    then have "p div r div prod_list (take j rs) = p div (r * prod_list (take j rs))"
      by (simp add: zdiv_zmult2_eq)
    with Cons.IH [OF nn j, of "p div r"] Suc show ?thesis by simp
  qed
qed

section \<open>The writer, the materializer and the keyspace: C10, C9, C3, C1\<close>

text \<open>
  C10. The output buffer never overflows. Starting from a buffer whose fill level is 0 or
  below \<open>BUFSIZ - 100\<close> (as it is initially, and after every \<open>out_push\<close> and
  \<open>out_flush\<close>), any sequence of flushes and of pushes of at most \<open>IN_LEN_MAX + 1 = 17\<close>
  bytes runs without a write past the end of \<open>out->buf\<close>: the test
  \<open>out->len + pw_len \<le> BUFSIZ\<close> holds at every \<open>memcpy\<close>, for every \<open>BUFSIZ\<close> of at
  least 17 bytes.
\<close>

theorem out_buffer_never_overflows:
  assumes "17 \<le> bufsiz"
    and "\<forall>l. Push l \<in> set ops \<longrightarrow> length l \<le> IN_LEN_MAX + 1"
    and "out_len out = 0 \<or> out_len out < bufsiz - 100"
  shows "\<exists>out'. out_run bufsiz out ops = Inr out'
           \<and> (out_len out' = 0 \<or> out_len out' < bufsiz - 100)
           \<and> out_len out' + 17 \<le> bufsiz"
proof -
  from assms(2) have "\<forall>l. Push l \<in> set ops \<longrightarrow> length l \<le> 17"
    by (simp add: IN_LEN_MAX_def)
  from out_run_safe [OF assms(1) this assms(3)]
  obtain out' where o: "out_run bufsiz out ops = Inr out'"
    "out_len out' = 0 \<or> out_len out' < bufsiz - 100" by blast
  with assms(1) have "out_len out' + 17 \<le> bufsiz" by auto
  with o show ?thesis by blast
qed

theorem out_buffer_never_overflows_witness:
  "\<exists>out'. out_run 256 out_init
      [Push ''0123456789abcdef'', Push ''0123456789abcdef'', Flush, Push ''0123456789abcdef''] = Inr out'
     \<and> out_len out' + 17 \<le> 256"
proof -
  have h1: "(17::int) \<le> 256" by simp
  have h2: "\<forall>l. Push l \<in> set [Push ''0123456789abcdef'', Push ''0123456789abcdef'', Flush,
              Push ''0123456789abcdef''] \<longrightarrow> length l \<le> IN_LEN_MAX + 1"
    by (simp add: IN_LEN_MAX_def)
  have h3: "out_len out_init = 0 \<or> out_len out_init < 256 - 100"
    by (simp add: out_len_def out_init_def)
  from out_buffer_never_overflows [OF h1 h2 h3] show ?thesis by blast
qed

text \<open>
  C9. In the materializer no division or modulus by a bucket word count divides by zero
  and no word index is out of range. For every chain \<open>e\<close> stored by the setup, in any
  length slot \<open>n\<close>: each bucket the chain refers to has \<open>words_cnt > 0\<close>, the index
  \<open>p mod words_cnt\<close> is below \<open>words_cnt\<close> for every position \<open>p\<close>, and
  \<open>elem_set_pwbuf\<close> ends neither in \<open>DivByZero\<close> nor in \<open>WordIndexOutOfRange\<close>.
\<close>

theorem materializer_division_and_index_safe:
  assumes "e \<in> set (elems_buf (fst (setup_db p ls) n))"
  shows "(\<forall>k \<in> set (buf e). 0 < words_cnt (fst (setup_db p ls) k)
            \<and> (\<forall>pos. nat (pos mod int (words_cnt (fst (setup_db p ls) k)))
                        < words_cnt (fst (setup_db p ls) k)))
       \<and> elem_set_pwbuf (buf e) (fst (setup_db p ls)) pos off pw_buf \<noteq> Inl DivByZero
       \<and> elem_set_pwbuf (buf e) (fst (setup_db p ls)) pos off pw_buf \<noteq> Inl WordIndexOutOfRange"
proof -
  let ?db = "fst (setup_db p ls)"
  from assms obtain b where b: "b \<in> set (gen_chains (load_words ls) (elem_cnt_min p) (elem_cnt_max p) n)"
    and e: "e = stored_elem (load_words ls) b"
    by (auto simp: setup_db_elems split: if_splits)
  have "elem_valid_with_db b (load_words ls)" using b by (rule gen_chains_valid)
  then have v: "elem_valid_with_db (buf e) ?db"
    by (simp add: e stored_elem_def elem_valid_same_words [OF setup_db_same_words])
  then have pos: "\<forall>k \<in> set (buf e). 0 < words_cnt (?db k)"
    by (simp add: elem_valid_iff)
  then have "\<forall>k \<in> set (buf e). \<forall>pos. nat (pos mod int (words_cnt (?db k))) < words_cnt (?db k)"
    by (simp add: nat_less_iff)
  with pos elem_set_pwbuf_safe [OF v] show ?thesis by blast
qed

theorem materializer_division_and_index_safe_witness:
  "\<lparr>buf = [1, 2], ks_cnt = 2, ks_pos = 0\<rparr>
      \<in> set (elems_buf (fst (setup_db (default_params\<lparr>pw_min := 3, pw_max := 3\<rparr>) [''a'', ''b'', ''cd'']) 3))
   \<and> 0 < words_cnt (fst (setup_db (default_params\<lparr>pw_min := 3, pw_max := 3\<rparr>) [''a'', ''b'', ''cd'']) 2)
   \<and> elem_set_pwbuf [1, 2] (fst (setup_db (default_params\<lparr>pw_min := 3, pw_max := 3\<rparr>) [''a'', ''b'', ''cd'']))
        1 0 ''????'' \<noteq> Inl DivByZero"
proof -
  let ?p = "default_params\<lparr>pw_min := 3, pw_max := 3\<rparr>"
  let ?e = "\<lparr>buf = [1, 2], ks_cnt = 2, ks_pos = 0\<rparr>"
  have h: "?e \<in> set (elems_buf (fst (setup_db ?p [''a'', ''b'', ''cd'']) 3))"
    by code_simp
  from materializer_division_and_index_safe [OF h, of 1 0 "''????''"] h
  show ?thesis by (simp del: elem_set_pwbuf.simps)
qed

text \<open>
  C3. After the setup every stored chain has \<open>ks_cnt\<close> equal to the product of the word
  counts of the buckets of its parts, and \<open>total_ks_cnt\<close> (before the limit is applied)
  is the sum of \<open>ks_cnt\<close> over the chains of all lengths from \<open>pw_min\<close> to \<open>pw_max\<close>.
\<close>

theorem keyspace_product_and_total:
  "(\<forall>n. \<forall>e \<in> set (elems_buf (fst (setup_db p ls) n)).
        ks_cnt e = prod_list (map (\<lambda>k. int (words_cnt (fst (setup_db p ls) k))) (buf e)))
   \<and> snd (setup_db p ls) =
        sum_list (map (\<lambda>n. sum_list (map ks_cnt (elems_buf (fst (setup_db p ls) n))))
           [nat (pw_min p) ..< Suc (nat (pw_max p))])"
proof -
  let ?db = "fst (setup_db p ls)"
  let ?dbl = "load_words ls"
  have sw: "same_words ?db ?dbl" by (rule setup_db_same_words)
  have a: "\<forall>n. \<forall>e \<in> set (elems_buf (?db n)).
        ks_cnt e = prod_list (map (\<lambda>k. int (words_cnt (?db k))) (buf e))"
    by (auto simp: setup_db_elems stored_elem_def elem_ks_prod same_words_cnt [OF sw]
          split: if_splits)
  have b: "snd (setup_db p ls) =
        sum_list (map (\<lambda>n. sum_list (map ks_cnt (elems_buf (?db n))))
           [nat (pw_min p) ..< Suc (nat (pw_max p))])"
    unfolding setup_db_snd
    by (rule arg_cong [where f = sum_list], rule map_cong)
       (auto simp: setup_db_elems comp_def stored_elem_def)
  from a b show ?thesis by blast
qed

theorem keyspace_product_and_total_witness:
  "\<lparr>buf = [1, 1], ks_cnt = 9, ks_pos = 0\<rparr>
      \<in> set (elems_buf (fst (setup_db (default_params\<lparr>pw_min := 2, pw_max := 2\<rparr>) [''a'', ''b'', ''c'']) 2))
   \<and> (9::int) = prod_list (map (\<lambda>k. int (words_cnt
          (fst (setup_db (default_params\<lparr>pw_min := 2, pw_max := 2\<rparr>) [''a'', ''b'', ''c'']) k))) [1, 1])
   \<and> snd (setup_db (default_params\<lparr>pw_min := 2, pw_max := 2\<rparr>) [''a'', ''b'', ''c'']) = 9"
proof -
  let ?p = "default_params\<lparr>pw_min := 2, pw_max := 2\<rparr>"
  let ?e = "\<lparr>buf = [1, 1], ks_cnt = 9, ks_pos = 0\<rparr>"
  have h: "?e \<in> set (elems_buf (fst (setup_db ?p [''a'', ''b'', ''c'']) 2))"
    by code_simp
  have t: "snd (setup_db ?p [''a'', ''b'', ''c'']) = 9"
    by code_simp
  from keyspace_product_and_total [of ?p "[''a'', ''b'', ''c'']"] h t
  show ?thesis by fastforce
qed

lemma chain_words_length: "length (chain_words db b p) = length b"
  by (simp add: chain_words_def mixed_radix_length)

lemma chain_words_nth:
  assumes "i < length b"
  shows "chain_words db b p ! i =
           words_buf (db (b ! i)) !
             nat ((p div prod_list (map (\<lambda>k. int (words_cnt (db k))) (take i b)))
                    mod int (words_cnt (db (b ! i))))"
proof -
  let ?rs = "map (\<lambda>k. int (words_cnt (db k))) b"
  have nn: "\<forall>r\<in>set ?rs. 0 \<le> r" by auto
  have i: "i < length ?rs" using assms by simp
  have "mixed_radix ?rs p ! i = (p div prod_list (take i ?rs)) mod (?rs ! i)"
    by (rule mixed_radix_nth [OF nn i])
  then show ?thesis
    using assms by (simp add: chain_words_def mixed_radix_length take_map)
qed

text \<open>
  C1. For a chain \<open>b = (p_1, ..., p_m)\<close> whose buckets are all non-empty and any local
  position \<open>p\<close>, the materializer fills \<open>pw_buf\<close> so that the \<open>n + 1\<close> bytes pushed
  for output length \<open>n = p_1 + ... + p_m\<close> are the words \<open>B_{p_i}[digit_i]\<close> one after the
  other, followed by a newline. The digits are the little-endian mixed-radix digits of
  \<open>p\<close> over the bucket sizes: \<open>digit_i = (p div (|B_{p_1}| * ... * |B_{p_{i-1}}|)) mod |B_{p_i}|\<close>.
  The buckets hold the loaded words (bucket \<open>k\<close> the words of \<open>k\<close> bytes), and \<open>pw_buf\<close>
  is an array of more than \<open>n\<close> bytes whose byte \<open>n\<close> the caller has set to the newline.
\<close>

theorem materializer_mixed_radix_line:
  assumes "words_wf db" and "elem_valid_with_db b db" and "sum_list b = n"
    and "n < length pw_buf"
  shows "\<exists>pw'. elem_set_pwbuf b db p 0 (pw_buf[n := CHR 0x0A]) = Inr pw'
           \<and> take (n + 1) pw' = concat (chain_words db b p) @ [CHR 0x0A]
           \<and> length (take (n + 1) pw') = n + 1
           \<and> length (chain_words db b p) = length b
           \<and> (\<forall>i < length b. chain_words db b p ! i =
                 words_buf (db (b ! i)) !
                   nat ((p div prod_list (map (\<lambda>k. int (words_cnt (db k))) (take i b)))
                          mod int (words_cnt (db (b ! i)))))"
proof -
  let ?pw = "pw_buf[n := CHR 0x0A]"
  let ?c = "concat (chain_words db b p)"
  define pw' where "pw' = ?c @ drop n ?pw"
  have fit: "0 + sum_list b \<le> length ?pw" using assms(3,4) by simp
  have r: "elem_set_pwbuf b db p 0 ?pw = Inr pw'"
    using elem_set_pwbuf_result [OF assms(1,2) fit, of p] assms(3) by (simp add: pw'_def)
  have lc: "length ?c = n"
    using length_concat_chain_words [OF assms(1,2)] assms(3) by simp
  have "drop n ?pw = CHR 0x0A # drop (Suc n) ?pw"
    using assms(4) by (simp add: Cons_nth_drop_Suc [symmetric])
  then have t: "take (n + 1) pw' = ?c @ [CHR 0x0A]"
    by (simp add: pw'_def lc)
  have l: "length (take (n + 1) pw') = n + 1"
    by (simp only: t) (simp add: lc)
  from r t l chain_words_length chain_words_nth show ?thesis by blast
qed

theorem materializer_mixed_radix_line_witness:
  "words_wf (load_words [''a'', ''b'', ''cd'', ''ef'', ''gh''])
   \<and> elem_valid_with_db [1, 2] (load_words [''a'', ''b'', ''cd'', ''ef'', ''gh''])
   \<and> (\<exists>pw'. elem_set_pwbuf [1, 2] (load_words [''a'', ''b'', ''cd'', ''ef'', ''gh'']) 3 0
                (''????????''[3 := CHR 0x0A]) = Inr pw'
           \<and> take (3 + 1) pw' = ''bef'' @ [CHR 0x0A])"
proof -
  let ?db = "load_words [''a'', ''b'', ''cd'', ''ef'', ''gh'']"
  have h1: "words_wf ?db" by (rule words_wf_load_words)
  have h2: "elem_valid_with_db [1, 2] ?db" by code_simp
  have h3: "sum_list [1, 2] = (3::nat)" by simp
  have h4: "3 < length ''????????''" by simp
  have c: "concat (chain_words ?db [1, 2] 3) = ''bef''" by code_simp
  from materializer_mixed_radix_line [OF h1 h2 h3 h4, of 3, unfolded c]
  obtain pw' where "elem_set_pwbuf [1, 2] ?db 3 0 (''????????''[3 := CHR 0x0A]) = Inr pw'"
    and "take (3 + 1) pw' = ''bef'' @ [CHR 0x0A]" by blast
  with h1 h2 show ?thesis by blast
qed

section \<open>Validation of skip and limit: C8\<close>

lemma elem_ks_nonneg: "0 \<le> elem_ks b db"
  unfolding elem_ks_prod by (rule prod_list_nonneg) auto

lemma setup_db_total_nonneg: "0 \<le> snd (setup_db p ls)"
  unfolding setup_db_snd
  by (intro sum_list_nonneg) (auto intro!: sum_list_nonneg elem_ks_nonneg)

lemma elem_set_pwbuf_no_usage: "elem_set_pwbuf b db p off pw \<noteq> Inl (Usage msg)"
  by (induction b arbitrary: p off pw) (auto simp: Let_def memcpy_at_def split: sum.splits)

lemma out_push_no_usage: "out_push bufsiz out l \<noteq> Inl (Usage msg)"
  by (simp add: out_push_def Let_def)

lemma iter_loop_no_usage:
  "iter_loop bufsiz db b pw_len skp kp n i s \<noteq> Inl (Usage msg)"
proof (induction n arbitrary: i s)
  case 0
  then show ?case by simp
next
  case (Suc n)
  obtain out t pw where s: "s = (out, t, pw)" by (cases s) auto
  show ?case
    using Suc.IH elem_set_pwbuf_no_usage out_push_no_usage
    by (auto simp: s split: sum.splits)
qed

lemma visit_slot_no_usage: "visit_slot pf wd skp tot n st \<noteq> Inl (Usage msg)"
  using iter_loop_no_usage
  by (auto simp: visit_slot_def Let_def split: sum.splits prod.splits)

lemma round_loop_no_usage: "round_loop pf wd skp tot os st \<noteq> Inl (Usage msg)"
  using visit_slot_no_usage
  by (induction os arbitrary: st) (auto simp: Let_def split: sum.splits)

lemma main_loop_no_usage: "main_loop fuel pf wd skp tot os st \<noteq> Inl (Usage msg)"
  using round_loop_no_usage
  by (induction fuel arbitrary: st) (auto split: sum.splits)

lemma main_unfold:
  assumes "check_params p = None" "\<not> keyspace p"
  shows "main pf fuel p ls =
     (case check_window (skip p) (limit p) (snd (setup_db p ls)) of
        Inl e \<Rightarrow> Inl e
      | Inr total_ks_cnt' \<Rightarrow>
          (case main_loop fuel pf (calc_wordlen_dist (wl_dist_len p) (fst (setup_db p ls)))
                  (skip p) total_ks_cnt'
                  (sort_pw_orders pf (nat (pw_min p)) (nat (pw_max p))
                     (sort_elems pf (nat (pw_min p)) (nat (pw_max p)) (fst (setup_db p ls))))
                  \<lparr>st_db = sort_elems pf (nat (pw_min p)) (nat (pw_max p)) (fst (setup_db p ls)),
                   st_out = out_init, st_total_ks_pos = 0\<rparr> of
             Inl e \<Rightarrow> Inl e
           | Inr st \<Rightarrow> Inr (Candidates (fp (st_out st)))))"
  using assms by (simp add: main_def Let_def split_def)

text \<open>
  C8. The validation of \<open>skip\<close> and \<open>limit\<close> comes before the enumeration loop and is
  inclusive at the boundary. For valid length and element-count options, outside the
  keyspace-only mode and with \<open>skip \<ge> 0\<close>: a \<open>skip\<close> above \<open>total_ks_cnt\<close> ends the run
  with the diagnostic that names \<open>--skip\<close>; a positive \<open>limit\<close> with
  \<open>skip + limit > total_ks_cnt\<close> ends it with the diagnostic that names \<open>--limit\<close>
  (when already \<open>limit > total_ks_cnt\<close>) or \<open>--skip + --limit\<close>; in these cases the
  result is the error, so no candidate is emitted. A run with \<open>skip \<le> total_ks_cnt\<close>
  (also \<open>skip = total_ks_cnt\<close>) and either no limit or \<open>skip + limit \<le> total_ks_cnt\<close>
  (also \<open>skip + limit = total_ks_cnt\<close>) passes the validation, with the effective total
  \<open>skip + limit\<close> when there is a limit, and never ends in a usage diagnostic.
\<close>

theorem skip_limit_validation:
  assumes "check_params p = None" and "\<not> keyspace p" and "0 \<le> skip p"
  shows "(skip p > snd (setup_db p ls) \<longrightarrow>
            main pf fuel p ls = Inl (Usage ''Value of --skip must be smaller than total keyspace''))
       \<and> (skip p \<le> snd (setup_db p ls) \<and> limit p > 0 \<and> limit p > snd (setup_db p ls) \<longrightarrow>
            main pf fuel p ls = Inl (Usage ''Value of --limit must be smaller than total keyspace''))
       \<and> (skip p \<le> snd (setup_db p ls) \<and> limit p > 0 \<and> limit p \<le> snd (setup_db p ls)
            \<and> skip p + limit p > snd (setup_db p ls) \<longrightarrow>
            main pf fuel p ls
              = Inl (Usage ''Value of --skip + --limit must be smaller than total keyspace''))
       \<and> (skip p \<le> snd (setup_db p ls)
            \<and> (limit p = 0 \<or> limit p > 0 \<and> skip p + limit p \<le> snd (setup_db p ls)) \<longrightarrow>
            check_window (skip p) (limit p) (snd (setup_db p ls))
              = Inr (if limit p = 0 then snd (setup_db p ls) else skip p + limit p)
            \<and> (\<forall>msg. main pf fuel p ls \<noteq> Inl (Usage msg)))"
proof -
  let ?t = "snd (setup_db p ls)"
  have t0: "0 \<le> ?t" by (rule setup_db_total_nonneg)
  note m = main_unfold [OF assms(1,2)]
  have a: "skip p > ?t \<longrightarrow>
            main pf fuel p ls = Inl (Usage ''Value of --skip must be smaller than total keyspace'')"
    using t0 by (auto simp: m check_window_def)
  have b: "skip p \<le> ?t \<and> limit p > 0 \<and> limit p > ?t \<longrightarrow>
            main pf fuel p ls = Inl (Usage ''Value of --limit must be smaller than total keyspace'')"
    by (auto simp: m check_window_def)
  have c: "skip p \<le> ?t \<and> limit p > 0 \<and> limit p \<le> ?t \<and> skip p + limit p > ?t \<longrightarrow>
            main pf fuel p ls
              = Inl (Usage ''Value of --skip + --limit must be smaller than total keyspace'')"
    using assms(3) by (auto simp: m check_window_def Let_def)
  have d1: "skip p \<le> ?t \<and> (limit p = 0 \<or> limit p > 0 \<and> skip p + limit p \<le> ?t) \<longrightarrow>
            check_window (skip p) (limit p) ?t = Inr (if limit p = 0 then ?t else skip p + limit p)"
    using assms(3) by (auto simp: check_window_def Let_def)
  have d2: "skip p \<le> ?t \<and> (limit p = 0 \<or> limit p > 0 \<and> skip p + limit p \<le> ?t) \<longrightarrow>
            (\<forall>msg. main pf fuel p ls \<noteq> Inl (Usage msg))"
  proof (intro impI allI)
    fix msg
    assume "skip p \<le> ?t \<and> (limit p = 0 \<or> limit p > 0 \<and> skip p + limit p \<le> ?t)"
    with d1 obtain t' where cw: "check_window (skip p) (limit p) ?t = Inr t'"
      by blast
    show "main pf fuel p ls \<noteq> Inl (Usage msg)"
      unfolding m cw by (auto simp: main_loop_no_usage split: sum.splits)
  qed
  from a b c d1 d2 show ?thesis by blast
qed

theorem skip_limit_validation_witness:
  "check_params (default_params\<lparr>pw_min := 2, pw_max := 2, skip := 9\<rparr>) = None
   \<and> snd (setup_db (default_params\<lparr>pw_min := 2, pw_max := 2, skip := 9\<rparr>) [''a'', ''b'', ''c'']) = 9
   \<and> check_window 9 0 9 = Inr 9
   \<and> (\<forall>msg. main platform_stable 1 (default_params\<lparr>pw_min := 2, pw_max := 2, skip := 9\<rparr>)
                 [''a'', ''b'', ''c''] \<noteq> Inl (Usage msg))"
proof -
  let ?p = "default_params\<lparr>pw_min := 2, pw_max := 2, skip := 9\<rparr>"
  have h1: "check_params ?p = None" by code_simp
  have h2: "\<not> keyspace ?p" by code_simp
  have h3: "0 \<le> skip ?p" by code_simp
  have t: "snd (setup_db ?p [''a'', ''b'', ''c'']) = 9" by code_simp
  have s: "skip ?p = 9" "limit ?p = 0" by (simp_all add: default_params_def)
  from skip_limit_validation [OF h1 h2 h3, of "[''a'', ''b'', ''c'']" platform_stable 1] h1 t s
  show ?thesis by simp
qed

section \<open>The two sorts: C7, C6\<close>

lemma mset_insert_le: "mset (insert_le cmp x ys) = add_mset x (mset ys)"
  by (induction ys) simp_all

lemma mset_insert_lt: "mset (insert_lt cmp x ys) = add_mset x (mset ys)"
  by (induction ys) simp_all

lemma set_insert_le: "set (insert_le cmp x ys) = insert x (set ys)"
  by (induction ys) auto

lemma set_insert_lt: "set (insert_lt cmp x ys) = insert x (set ys)"
  by (induction ys) auto

lemma mset_qsort_stable: "mset (qsort_stable cmp xs) = mset xs"
  by (induction xs) (simp_all add: qsort_stable_def mset_insert_le)

lemma mset_qsort_unstable: "mset (qsort_unstable cmp xs) = mset xs"
  by (induction xs) (simp_all add: qsort_unstable_def mset_insert_lt)

lemma sorted_insert_le:
  assumes tot: "\<And>a b. cmp a b \<le> 0 \<or> cmp b a \<le> 0"
    and tr: "\<And>a b c. cmp a b \<le> 0 \<Longrightarrow> cmp b c \<le> 0 \<Longrightarrow> cmp a c \<le> 0"
  shows "sorted_wrt (\<lambda>a b. cmp a b \<le> 0) ys \<Longrightarrow> sorted_wrt (\<lambda>a b. cmp a b \<le> 0) (insert_le cmp x ys)"
proof (induction ys)
  case Nil
  then show ?case by simp
next
  case (Cons y ys)
  show ?case
  proof (cases "cmp x y \<le> 0")
    case True
    with Cons.prems tr show ?thesis by auto
  next
    case False
    with tot have "cmp y x \<le> 0" by blast
    with False Cons show ?thesis by (auto simp: set_insert_le)
  qed
qed

lemma sorted_insert_lt:
  assumes anti: "\<And>a b. 0 \<le> cmp a b \<Longrightarrow> cmp b a \<le> 0"
    and tr: "\<And>a b c. cmp a b \<le> 0 \<Longrightarrow> cmp b c \<le> 0 \<Longrightarrow> cmp a c \<le> 0"
  shows "sorted_wrt (\<lambda>a b. cmp a b \<le> 0) ys \<Longrightarrow> sorted_wrt (\<lambda>a b. cmp a b \<le> 0) (insert_lt cmp x ys)"
proof (induction ys)
  case Nil
  then show ?case by simp
next
  case (Cons y ys)
  show ?case
  proof (cases "cmp x y < 0")
    case True
    then have xy: "cmp x y \<le> 0" by simp
    have "\<forall>z\<in>set ys. cmp x z \<le> 0"
      using Cons.prems tr [OF xy] by auto
    with True xy Cons.prems show ?thesis by simp
  next
    case False
    then have "cmp y x \<le> 0" by (intro anti) simp
    with False Cons show ?thesis by (auto simp: set_insert_lt)
  qed
qed

lemma qsort_stable_sorts:
  assumes tot: "\<And>a b. cmp a b \<le> 0 \<or> cmp b a \<le> 0"
    and tr: "\<And>a b c. cmp a b \<le> 0 \<Longrightarrow> cmp b c \<le> 0 \<Longrightarrow> cmp a c \<le> 0"
  shows "qsort_sorts qsort_stable cmp"
proof -
  have "sorted_wrt (\<lambda>a b. cmp a b \<le> 0) (qsort_stable cmp xs)" for xs
    by (induction xs) (simp_all add: qsort_stable_def sorted_insert_le [OF tot tr])
  then show ?thesis by (simp add: qsort_sorts_def mset_qsort_stable)
qed

lemma qsort_unstable_sorts:
  assumes anti: "\<And>a b. 0 \<le> cmp a b \<Longrightarrow> cmp b a \<le> 0"
    and tr: "\<And>a b c. cmp a b \<le> 0 \<Longrightarrow> cmp b c \<le> 0 \<Longrightarrow> cmp a c \<le> 0"
  shows "qsort_sorts qsort_unstable cmp"
proof -
  have "sorted_wrt (\<lambda>a b. cmp a b \<le> 0) (qsort_unstable cmp xs)" for xs
    by (induction xs) (simp_all add: qsort_unstable_def sorted_insert_lt [OF anti tr])
  then show ?thesis by (simp add: qsort_sorts_def mset_qsort_unstable)
qed

lemma sort_by_ks_le: "sort_by_ks a b \<le> 0 \<longleftrightarrow> ks_cnt a \<le> ks_cnt b"
  by (simp add: sort_by_ks_def mpz_cmp_def)

lemma sort_by_ks_ge: "0 \<le> sort_by_ks a b \<longleftrightarrow> ks_cnt b \<le> ks_cnt a"
  by (simp add: sort_by_ks_def mpz_cmp_def)

lemma sort_by_cnt_le: "sort_by_cnt a b \<le> 0 \<longleftrightarrow> cnt b \<le> cnt a"
  by (simp add: sort_by_cnt_def)

lemma qsort_stable_sorts_by_ks: "qsort_sorts qsort_stable sort_by_ks"
  by (rule qsort_stable_sorts) (auto simp: sort_by_ks_le)

lemma qsort_unstable_sorts_by_ks: "qsort_sorts qsort_unstable sort_by_ks"
  by (rule qsort_unstable_sorts) (auto simp: sort_by_ks_le sort_by_ks_ge)

lemma qsort_stable_sorts_by_cnt: "qsort_sorts qsort_stable sort_by_cnt"
  by (rule qsort_stable_sorts) (auto simp: sort_by_cnt_le)

lemma foldl_sort_elems_len:
  "distinct ns \<Longrightarrow>
   foldl (sort_elems_len pf) db ns =
     (\<lambda>k. if k \<in> set ns
          then (db k)\<lparr>elems_buf := qsort_elems pf sort_by_ks (elems_buf (db k))\<rparr>
          else db k)"
proof (induction ns arbitrary: db)
  case Nil
  then show ?case by simp
next
  case (Cons n ns)
  then have d: "distinct ns" and nn: "n \<notin> set ns" by simp_all
  have "foldl (sort_elems_len pf) db (n # ns) = foldl (sort_elems_len pf) (sort_elems_len pf db n) ns"
    by simp
  also have "\<dots> = (\<lambda>k. if k \<in> set ns
          then (sort_elems_len pf db n k)\<lparr>elems_buf :=
                 qsort_elems pf sort_by_ks (elems_buf (sort_elems_len pf db n k))\<rparr>
          else sort_elems_len pf db n k)"
    by (rule Cons.IH [OF d])
  also have "\<dots> = (\<lambda>k. if k \<in> set (n # ns)
          then (db k)\<lparr>elems_buf := qsort_elems pf sort_by_ks (elems_buf (db k))\<rparr>
          else db k)"
    using nn by (auto simp: sort_elems_len_def fun_eq_iff)
  finally show ?case .
qed

lemma sort_elems_eq:
  "sort_elems pf pmin pmax db =
     (\<lambda>k. if pmin \<le> k \<and> k \<le> pmax
          then (db k)\<lparr>elems_buf := qsort_elems pf sort_by_ks (elems_buf (db k))\<rparr>
          else db k)"
  by (auto simp: sort_elems_def foldl_sort_elems_len fun_eq_iff)

lemma sort_elems_same_words: "same_words (sort_elems pf pmin pmax db) db"
  by (simp add: sort_elems_eq same_words_def)

text \<open>
  C7, as amended. After the setup and the sort, for every \<open>qsort\<close> that meets its
  contract for \<open>sort_by_ks\<close>, the chains of every length slot are in ascending order
  of \<open>ks_cnt\<close> and are a rearrangement of the chains generated for that slot. The order
  among chains of equal \<open>ks_cnt\<close> is the one the platform's \<open>qsort\<close> produces.
\<close>

theorem chains_sorted_by_ks:
  assumes "qsort_sorts (qsort_elems pf) sort_by_ks"
  shows "sorted_wrt (\<lambda>a b. ks_cnt a \<le> ks_cnt b)
           (elems_buf (sort_elems pf (nat (pw_min p)) (nat (pw_max p)) (fst (setup_db p ls)) n))
       \<and> mset (elems_buf (sort_elems pf (nat (pw_min p)) (nat (pw_max p)) (fst (setup_db p ls)) n))
           = mset (elems_buf (fst (setup_db p ls) n))"
proof -
  from assms have q: "\<And>xs. mset (qsort_elems pf sort_by_ks xs) = mset xs
      \<and> sorted_wrt (\<lambda>a b. ks_cnt a \<le> ks_cnt b) (qsort_elems pf sort_by_ks xs)"
    by (simp add: qsort_sorts_def sort_by_ks_le)
  show ?thesis
    by (simp add: sort_elems_eq q setup_db_elems)
qed

theorem chains_sorted_by_ks_witness:
  "qsort_sorts (qsort_elems platform_stable) sort_by_ks
   \<and> sorted_wrt (\<lambda>a b. ks_cnt a \<le> ks_cnt b)
        (elems_buf (sort_elems platform_stable 3 3
           (fst (setup_db (default_params\<lparr>pw_min := 3, pw_max := 3\<rparr>) [''a'', ''b'', ''cd''])) 3))"
proof -
  let ?p = "default_params\<lparr>pw_min := 3, pw_max := 3\<rparr>"
  have h: "qsort_sorts (qsort_elems platform_stable) sort_by_ks"
    by (simp add: platform_stable_def qsort_stable_sorts_by_ks)
  have n: "nat (pw_min ?p) = 3" "nat (pw_max ?p) = 3" by (simp_all add: default_params_def)
  from chains_sorted_by_ks [OF h, of ?p "[''a'', ''b'', ''cd'']" 3] h
  show ?thesis by (simp only: n)
qed

text \<open>
  C7 as stated fails for a \<open>qsort\<close> that is not stable. In scenario 4 (words \<open>a\<close> and
  \<open>bc\<close>, length 3, exactly two elements) the chains are generated as \<open>(1,2), (2,1)\<close>,
  both with \<open>ks_cnt = 1\<close>; \<open>qsort_unstable\<close> meets the contract for \<open>sort_by_ks\<close> and
  leaves them as \<open>(2,1), (1,2)\<close>.
\<close>

theorem chains_tie_order_counterexample:
  "qsort_sorts (qsort_elems platform_unstable) sort_by_ks
   \<and> map buf (elems_buf (fst (setup_db
         (default_params\<lparr>pw_min := 3, pw_max := 3, elem_cnt_min := 2, elem_cnt_max := 2\<rparr>)
         [''a'', ''bc'']) 3)) = [[1, 2], [2, 1]]
   \<and> map ks_cnt (elems_buf (fst (setup_db
         (default_params\<lparr>pw_min := 3, pw_max := 3, elem_cnt_min := 2, elem_cnt_max := 2\<rparr>)
         [''a'', ''bc'']) 3)) = [1, 1]
   \<and> map buf (elems_buf (sort_elems platform_unstable 3 3 (fst (setup_db
         (default_params\<lparr>pw_min := 3, pw_max := 3, elem_cnt_min := 2, elem_cnt_max := 2\<rparr>)
         [''a'', ''bc''])) 3)) = [[2, 1], [1, 2]]"
proof -
  let ?p = "default_params\<lparr>pw_min := 3, pw_max := 3, elem_cnt_min := 2, elem_cnt_max := 2\<rparr>"
  have h: "qsort_sorts (qsort_elems platform_unstable) sort_by_ks"
    by (simp add: platform_unstable_def qsort_unstable_sorts_by_ks)
  have a: "map buf (elems_buf (fst (setup_db ?p [''a'', ''bc'']) 3)) = [[1, 2], [2, 1]]"
    by code_simp
  have b: "map ks_cnt (elems_buf (fst (setup_db ?p [''a'', ''bc'']) 3)) = [1, 1]"
    by code_simp
  have c: "map buf (elems_buf (sort_elems platform_unstable 3 3 (fst (setup_db ?p [''a'', ''bc''])) 3))
             = [[2, 1], [1, 2]]"
    by code_simp
  from h a b c show ?thesis by blast
qed

lemma init_pw_orders_len: "map len (init_pw_orders pmin pmax db) = [pmin ..< Suc pmax]"
  by (simp add: init_pw_orders_def comp_def)

lemma init_pw_orders_cnt:
  "o' \<in> set (init_pw_orders pmin pmax db) \<Longrightarrow> cnt o' = words_cnt (db (len o'))"
  by (auto simp: init_pw_orders_def)

text \<open>
  C6, as amended. The length order is what \<open>qsort\<close> makes of the pairs
  \<open>(n, |B_n|)\<close> for \<open>n\<close> from \<open>pw_min\<close> to \<open>pw_max\<close> under \<open>sort_by_cnt\<close>, which
  reports the first pair as greater exactly when its word count is smaller. For every
  \<open>qsort\<close> that meets its contract for this comparison the order is a permutation of
  \<open>[pw_min, pw_max]\<close> in descending order of the wordlist bucket count \<open>|B_n|\<close>; the
  option \<open>wl-dist-len\<close> and the built-in distribution do not enter it (they only give the
  batch bound \<open>wordlen_dist\<close> of the loop).
\<close>

theorem length_order_by_bucket_count:
  assumes "qsort_sorts (qsort_orders pf) sort_by_cnt"
  shows "mset (map len (sort_pw_orders pf pmin pmax db)) = mset [pmin ..< Suc pmax]
       \<and> sorted_wrt (\<lambda>a b. cnt a \<ge> cnt b) (sort_pw_orders pf pmin pmax db)
       \<and> (\<forall>o' \<in> set (sort_pw_orders pf pmin pmax db). cnt o' = words_cnt (db (len o')))"
proof -
  let ?xs = "init_pw_orders pmin pmax db"
  let ?ys = "sort_pw_orders pf pmin pmax db"
  from assms have m: "mset ?ys = mset ?xs"
    and s: "sorted_wrt (\<lambda>a b. sort_by_cnt a b \<le> 0) ?ys"
    by (simp_all add: qsort_sorts_def sort_pw_orders_def)
  have "mset (map len ?ys) = mset (map len ?xs)"
    using m by (metis mset_map)
  then have a: "mset (map len ?ys) = mset [pmin ..< Suc pmax]"
    by (simp only: init_pw_orders_len)
  have b: "sorted_wrt (\<lambda>a b. cnt a \<ge> cnt b) ?ys"
    using s by (simp add: sort_by_cnt_le)
  have "set ?ys = set ?xs" using m by (rule mset_eq_setD)
  then have c: "\<forall>o' \<in> set ?ys. cnt o' = words_cnt (db (len o'))"
    by (simp add: init_pw_orders_cnt)
  from a b c show ?thesis by blast
qed

theorem length_order_by_bucket_count_witness:
  "qsort_sorts (qsort_orders platform_stable) sort_by_cnt
   \<and> \<lparr>len = 2, cnt = 3\<rparr>
        \<in> set (sort_pw_orders platform_stable 1 2 (load_words [''a'', ''b'', ''cd'', ''ef'', ''gh'']))
   \<and> (3::nat) = words_cnt (load_words [''a'', ''b'', ''cd'', ''ef'', ''gh''] 2)
   \<and> sorted_wrt (\<lambda>a b. cnt a \<ge> cnt b)
        (sort_pw_orders platform_stable 1 2 (load_words [''a'', ''b'', ''cd'', ''ef'', ''gh'']))"
proof -
  let ?db = "load_words [''a'', ''b'', ''cd'', ''ef'', ''gh'']"
  have h: "qsort_sorts (qsort_orders platform_stable) sort_by_cnt"
    by (simp add: platform_stable_def qsort_stable_sorts_by_cnt)
  have e: "\<lparr>len = 2, cnt = 3\<rparr> \<in> set (sort_pw_orders platform_stable 1 2 ?db)"
    by code_simp
  from length_order_by_bucket_count [OF h, of 1 2 ?db] h e
  show ?thesis by fastforce
qed

text \<open>
  C6 as stated fails: with the default options (no \<open>wl-dist-len\<close>, priorities 15 and 56
  for the lengths 1 and 2), \<open>pw_min = 1\<close>, \<open>pw_max = 2\<close> and a wordlist with two words
  of length 1 and three of length 2, the length order is \<open>[2, 1]\<close>.
\<close>

theorem length_order_counterexample:
  "qsort_sorts (qsort_orders platform_stable) sort_by_cnt
   \<and> \<not> wl_dist_len (default_params\<lparr>pw_min := 1, pw_max := 2\<rparr>)
   \<and> calc_wordlen_dist False
        (fst (setup_db (default_params\<lparr>pw_min := 1, pw_max := 2\<rparr>) [''a'', ''b'', ''cd'', ''ef'', ''gh''])) 1 = 15
   \<and> calc_wordlen_dist False
        (fst (setup_db (default_params\<lparr>pw_min := 1, pw_max := 2\<rparr>) [''a'', ''b'', ''cd'', ''ef'', ''gh''])) 2 = 56
   \<and> map len (sort_pw_orders platform_stable 1 2
        (sort_elems platform_stable 1 2
           (fst (setup_db (default_params\<lparr>pw_min := 1, pw_max := 2\<rparr>) [''a'', ''b'', ''cd'', ''ef'', ''gh'']))))
       = [2, 1]"
proof -
  let ?p = "default_params\<lparr>pw_min := 1, pw_max := 2\<rparr>"
  let ?db = "fst (setup_db ?p [''a'', ''b'', ''cd'', ''ef'', ''gh''])"
  have h: "qsort_sorts (qsort_orders platform_stable) sort_by_cnt"
    by (simp add: platform_stable_def qsort_stable_sorts_by_cnt)
  have w: "\<not> wl_dist_len ?p" by code_simp
  have a: "calc_wordlen_dist False ?db 1 = 15"
    by (simp add: calc_wordlen_dist_def IN_LEN_MIN_def IN_LEN_MAX_def
          DEF_WORDLEN_DIST_CNT_def DEF_WORDLEN_DIST_def)
  have b: "calc_wordlen_dist False ?db 2 = 56"
    by (simp add: calc_wordlen_dist_def IN_LEN_MIN_def IN_LEN_MAX_def
          DEF_WORDLEN_DIST_CNT_def DEF_WORDLEN_DIST_def)
  have c: "map len (sort_pw_orders platform_stable 1 2 (sort_elems platform_stable 1 2 ?db)) = [2, 1]"
    by code_simp
  from h w a b c show ?thesis by blast
qed

section \<open>Chain generation: C2\<close>

lemma split_bits_step:
  "s < len1 \<Longrightarrow> split_bits idx s len1 = ((idx div 2 ^ s) mod 2 = 1) # split_bits idx (Suc s) len1"
  by (simp add: split_bits_def upt_conv_Cons)

lemma split_bits_done: "\<not> s < len1 \<Longrightarrow> split_bits idx s len1 = []"
  by (simp add: split_bits_def)

lemma elem_gen_loop_decode:
  "elem_gen_loop len1 idx s key acc = acc @ decode_bits (split_bits idx s len1) key"
proof (induction len1 idx s key acc rule: elem_gen_loop.induct)
  case (1 len1 idx s key acc)
  show ?case
  proof (cases "s < len1")
    case True
    show ?thesis
    proof (cases "(idx div 2 ^ s) mod 2 = 1")
      case b: True
      with True "1.IH"(1) show ?thesis
        by (subst elem_gen_loop.simps) (simp add: split_bits_step)
    next
      case b: False
      with True "1.IH"(2) show ?thesis
        by (subst elem_gen_loop.simps) (simp add: split_bits_step)
    qed
  next
    case False
    then show ?thesis
      by (subst elem_gen_loop.simps) (simp add: split_bits_done)
  qed
qed

lemma elem_gen_with_idx_canonical: "elem_gen_with_idx (n - 1) idx = canonical_decode n idx"
  by (simp add: elem_gen_with_idx_def canonical_decode_def elem_gen_loop_decode)

lemma sum_decode_bits: "sum_list (decode_bits bs c) = c + length bs"
  by (induction bs c rule: decode_bits.induct) simp_all

lemma decode_bits_pos: "0 < c \<Longrightarrow> \<forall>k \<in> set (decode_bits bs c). 0 < k"
  by (induction bs c rule: decode_bits.induct) simp_all

lemma decode_bits_hd: "\<exists>k r. decode_bits bs c = k # r \<and> c \<le> k"
proof (induction bs c rule: decode_bits.induct)
  case (3 bs c)
  then show ?case by (auto intro: Suc_leD)
qed simp_all

lemma decode_bits_inj:
  "length bs = length bs' \<Longrightarrow> decode_bits bs c = decode_bits bs' c \<Longrightarrow> bs = bs'"
proof (induction bs bs' arbitrary: c rule: list_induct2)
  case Nil
  then show ?case by simp
next
  case (Cons b bs b' bs')
  show ?case
  proof (cases b; cases b')
    assume "b" "b'"
    with Cons show ?thesis by simp
  next
    assume "\<not> b" "\<not> b'"
    with Cons show ?thesis by simp
  next
    assume b: "b" "\<not> b'"
    from decode_bits_hd [of bs' "Suc c"] obtain k r
      where "decode_bits bs' (Suc c) = k # r" "Suc c \<le> k" by blast
    with b Cons.prems show ?thesis by simp
  next
    assume b: "\<not> b" "b'"
    from decode_bits_hd [of bs "Suc c"] obtain k r
      where "decode_bits bs (Suc c) = k # r" "Suc c \<le> k" by blast
    with b Cons.prems show ?thesis by simp
  qed
qed

lemma decode_bits_replicate:
  "decode_bits (replicate j False @ bs) c = decode_bits bs (c + j)"
  by (induction j arbitrary: c) simp_all

lemma decode_bits_surj:
  "\<forall>k \<in> set r. 0 < k \<Longrightarrow> c \<le> k \<Longrightarrow>
     \<exists>bs. length bs + c = sum_list (k # r) \<and> decode_bits bs c = k # r"
proof (induction r arbitrary: k c)
  case Nil
  have "decode_bits (replicate (k - c) False @ []) c = [k]"
    using Nil.prems by (simp only: decode_bits_replicate) simp
  then show ?case
    using Nil.prems by (intro exI [of _ "replicate (k - c) False"]) simp
next
  case (Cons k2 r)
  then have "\<forall>k \<in> set r. 0 < k" and "1 \<le> k2" by auto
  from Cons.IH [OF this] obtain bs
    where bs: "length bs + 1 = sum_list (k2 # r)" "decode_bits bs 1 = k2 # r" by blast
  have "decode_bits (replicate (k - c) False @ True # bs) c = k # k2 # r"
    using Cons.prems bs by (simp only: decode_bits_replicate) simp
  moreover have "length (replicate (k - c) False @ True # bs) + c = sum_list (k # k2 # r)"
    using Cons.prems bs by simp
  ultimately show ?case by blast
qed

lemma split_bits_length: "length (split_bits idx 0 m) = m"
  by (simp add: split_bits_def)

lemma split_bits_Suc:
  "split_bits idx 0 (Suc m) = (idx mod 2 = 1) # split_bits (idx div 2) 0 m"
proof -
  have "[0 ..< Suc m] = 0 # map Suc [0 ..< m]"
    by (simp add: upt_conv_Cons map_Suc_upt del: upt_Suc)
  then show ?thesis
    by (simp add: split_bits_def comp_def div_mult2_eq del: upt_Suc)
qed

lemma split_bits_inj:
  "idx < 2 ^ m \<Longrightarrow> idx' < 2 ^ m \<Longrightarrow> split_bits idx 0 m = split_bits idx' 0 m \<Longrightarrow> idx = idx'"
proof (induction m arbitrary: idx idx')
  case 0
  then show ?case by simp
next
  case (Suc m)
  from Suc.prems have "idx div 2 < 2 ^ m" "idx' div 2 < 2 ^ m" by auto
  moreover from Suc.prems(3)
  have "(idx mod 2 = 1) = (idx' mod 2 = 1)"
    and "split_bits (idx div 2) 0 m = split_bits (idx' div 2) 0 m"
    by (simp_all add: split_bits_Suc)
  ultimately have "idx div 2 = idx' div 2" and "idx mod 2 = idx' mod 2"
    using Suc.IH by auto
  then show ?case by (metis div_mult_mod_eq)
qed

lemma split_bits_surj: "\<exists>idx < 2 ^ length bs. split_bits idx 0 (length bs) = bs"
proof (induction bs)
  case Nil
  then show ?case by (simp add: split_bits_def)
next
  case (Cons b bs)
  then obtain idx where idx: "idx < 2 ^ length bs" "split_bits idx 0 (length bs) = bs" by blast
  let ?i = "2 * idx + (if b then 1 else 0)"
  have "?i < 2 ^ length (b # bs)" using idx(1) by auto
  moreover have "split_bits ?i 0 (length (b # bs)) = b # bs"
    using idx(2) by (simp add: split_bits_Suc)
  ultimately show ?case by blast
qed

lemma canonical_decode_inj:
  assumes "idx < 2 ^ (n - 1)" "idx' < 2 ^ (n - 1)" "canonical_decode n idx = canonical_decode n idx'"
  shows "idx = idx'"
proof -
  have "split_bits idx 0 (n - 1) = split_bits idx' 0 (n - 1)"
    using assms(3) unfolding canonical_decode_def
    by (intro decode_bits_inj [where c = 1]) (simp_all add: split_bits_length)
  with assms(1,2) show ?thesis by (rule split_bits_inj)
qed

lemma canonical_decode_range:
  assumes "1 \<le> n"
  shows "canonical_decode n ` {0 ..< 2 ^ (n - 1)} = compositions n"
proof (intro equalityI subsetI)
  fix c assume "c \<in> canonical_decode n ` {0 ..< 2 ^ (n - 1)}"
  then obtain idx where "c = canonical_decode n idx" by blast
  then show "c \<in> compositions n"
    using assms decode_bits_pos [of 1]
    by (simp add: compositions_def canonical_decode_def sum_decode_bits split_bits_length)
next
  fix c assume "c \<in> compositions n"
  then have s: "sum_list c = n" and p: "\<forall>k \<in> set c. 0 < k"
    by (simp_all add: compositions_def)
  with assms obtain k r where c: "c = k # r" by (cases c) auto
  with p have "\<forall>k \<in> set r. 0 < k" "1 \<le> k" by auto
  from decode_bits_surj [OF this] obtain bs
    where bs: "length bs + 1 = sum_list (k # r)" "decode_bits bs 1 = k # r" by blast
  then have l: "length bs = n - 1" using s c by simp
  from split_bits_surj [of bs] obtain idx
    where "idx < 2 ^ length bs" "split_bits idx 0 (length bs) = bs" by blast
  then have "idx \<in> {0 ..< 2 ^ (n - 1)}" "canonical_decode n idx = c"
    using bs(2) c l by (simp_all add: canonical_decode_def)
  then show "c \<in> canonical_decode n ` {0 ..< 2 ^ (n - 1)}" by blast
qed

lemma check_params_None:
  "check_params p = None \<Longrightarrow>
     1 \<le> pw_min p \<and> pw_min p \<le> pw_max p \<and> pw_max p \<le> 16
     \<and> 1 \<le> elem_cnt_min p \<and> elem_cnt_min p \<le> elem_cnt_max p"
  by (auto simp: check_params_def IN_LEN_MIN_def IN_LEN_MAX_def split: if_splits)

lemma chain_ok_iff:
  "chain_ok db a c b \<longleftrightarrow>
     (\<forall>k \<in> set b. 0 < words_cnt (db k)) \<and> a \<le> int (length b) \<and> int (length b) \<le> c"
  by (auto simp: chain_ok_def elem_valid_iff elem_valid_with_cnt_min_def elem_valid_with_cnt_max_def)

lemma buf_stored_elem: "buf (stored_elem db b) = b"
  by (simp add: stored_elem_def)

lemma map_buf_stored: "map buf (map (stored_elem db) cs) = cs"
  by (induction cs) (simp_all add: buf_stored_elem)

lemma gen_chains_canonical:
  "gen_chains db a c n = filter (chain_ok db a c) (map (canonical_decode n) [0 ..< 2 ^ (n - 1)])"
proof -
  have "elem_gen_with_idx (n - 1) = canonical_decode n"
    by (rule ext) (rule elem_gen_with_idx_canonical)
  then show ?thesis by (simp only: gen_chains_def)
qed

lemma distinct_canonical: "distinct (map (canonical_decode n) [0 ..< 2 ^ (n - 1)])"
  by (auto simp: distinct_map inj_on_def intro: canonical_decode_inj)

text \<open>
  C2. For every target length \<open>n\<close> from \<open>pw_min\<close> to \<open>pw_max\<close> (options accepted by the
  validation), the chains stored for \<open>n\<close> are, in this order, the canonical decodings of
  the bitmasks \<open>0, ..., 2^(n-1) - 1\<close> that pass the filters; no chain is stored twice;
  and as a set they are exactly the compositions of \<open>n\<close> into positive parts that refer
  only to non-empty buckets and have between \<open>elem_cnt_min\<close> and \<open>elem_cnt_max\<close> parts.
\<close>

theorem stored_chains_are_filtered_compositions:
  assumes "check_params p = None" and "pw_min p \<le> int n" and "int n \<le> pw_max p"
  shows "map buf (elems_buf (fst (setup_db p ls) n))
           = filter (\<lambda>c. (\<forall>k \<in> set c. 0 < words_cnt (fst (setup_db p ls) k))
                          \<and> elem_cnt_min p \<le> int (length c) \<and> int (length c) \<le> elem_cnt_max p)
               (map (elem_gen_with_idx (n - 1)) [0 ..< 2 ^ (n - 1)])
       \<and> (\<forall>idx. elem_gen_with_idx (n - 1) idx = canonical_decode n idx)
       \<and> distinct (map buf (elems_buf (fst (setup_db p ls) n)))
       \<and> set (map buf (elems_buf (fst (setup_db p ls) n)))
           = {c \<in> compositions n.
                (\<forall>k \<in> set c. 0 < words_cnt (fst (setup_db p ls) k))
                \<and> elem_cnt_min p \<le> int (length c) \<and> int (length c) \<le> elem_cnt_max p}"
proof -
  let ?db = "fst (setup_db p ls)"
  let ?dbl = "load_words ls"
  let ?ok = "\<lambda>c. (\<forall>k \<in> set c. 0 < words_cnt (?db k))
                 \<and> elem_cnt_min p \<le> int (length c) \<and> int (length c) \<le> elem_cnt_max p"
  from check_params_None [OF assms(1)] assms(2,3)
  have n1: "1 \<le> n" and rng: "nat (pw_min p) \<le> n \<and> n \<le> nat (pw_max p)" by auto
  have ok: "chain_ok ?dbl (elem_cnt_min p) (elem_cnt_max p) = ?ok"
    by (rule ext) (simp add: chain_ok_iff same_words_cnt [OF setup_db_same_words])
  have e: "map buf (elems_buf (?db n)) = filter ?ok (map (canonical_decode n) [0 ..< 2 ^ (n - 1)])"
  proof -
    have "elems_buf (?db n) = map (stored_elem ?dbl)
            (gen_chains ?dbl (elem_cnt_min p) (elem_cnt_max p) n)"
      using rng by (simp add: setup_db_elems)
    then show ?thesis
      by (simp only: map_buf_stored gen_chains_canonical ok)
  qed
  have g: "elem_gen_with_idx (n - 1) = canonical_decode n"
    by (rule ext) (rule elem_gen_with_idx_canonical)
  have a: "map buf (elems_buf (?db n)) = filter ?ok (map (elem_gen_with_idx (n - 1)) [0 ..< 2 ^ (n - 1)])"
    by (simp only: e g)
  have b: "distinct (map buf (elems_buf (?db n)))"
    unfolding e by (rule distinct_filter) (rule distinct_canonical)
  have "set (map (canonical_decode n) [0 ..< 2 ^ (n - 1)]) = compositions n"
    using canonical_decode_range [OF n1] by simp
  then have c: "set (map buf (elems_buf (?db n))) = {c \<in> compositions n. ?ok c}"
    unfolding e by (simp only: set_filter)
  from a b c elem_gen_with_idx_canonical show ?thesis by blast
qed

theorem stored_chains_are_filtered_compositions_witness:
  "check_params (default_params\<lparr>pw_min := 3, pw_max := 3\<rparr>) = None
   \<and> set (map buf (elems_buf (fst (setup_db (default_params\<lparr>pw_min := 3, pw_max := 3\<rparr>)
              [''a'', ''bc'']) 3)))
       = {c \<in> compositions 3.
            (\<forall>k \<in> set c. 0 < words_cnt (fst (setup_db (default_params\<lparr>pw_min := 3, pw_max := 3\<rparr>)
                                              [''a'', ''bc'']) k))
            \<and> elem_cnt_min (default_params\<lparr>pw_min := 3, pw_max := 3\<rparr>) \<le> int (length c)
            \<and> int (length c) \<le> elem_cnt_max (default_params\<lparr>pw_min := 3, pw_max := 3\<rparr>)}
   \<and> map buf (elems_buf (fst (setup_db (default_params\<lparr>pw_min := 3, pw_max := 3\<rparr>)
              [''a'', ''bc'']) 3)) = [[1, 2], [2, 1], [1, 1, 1]]"
proof -
  let ?p = "default_params\<lparr>pw_min := 3, pw_max := 3\<rparr>"
  have h1: "check_params ?p = None" by code_simp
  have h2: "pw_min ?p \<le> int 3" by code_simp
  have h3: "int 3 \<le> pw_max ?p" by code_simp
  have v: "map buf (elems_buf (fst (setup_db ?p [''a'', ''bc'']) 3)) = [[1, 2], [2, 1], [1, 1, 1]]"
    by code_simp
  from stored_chains_are_filtered_compositions [OF h1 h2 h3, of "[''a'', ''bc'']"] h1 v
  show ?thesis by blast
qed

section \<open>The enumeration loop and its abstract view\<close>

lemma lines_from_0: "lines_from db b kp i 0 = []"
  by (simp add: lines_from_def)

lemma lines_from_Suc:
  "lines_from db b kp i (Suc c) = cand_line db b (kp + int i) # lines_from db b kp (Suc i) c"
  by (simp add: lines_from_def upt_conv_Cons del: upt_Suc)

lemma length_lines_from: "length (lines_from db b kp i c) = c"
  by (simp add: lines_from_def)

lemma take_lines_from: "c \<le> d \<Longrightarrow> take c (lines_from db b kp i d) = lines_from db b kp i c"
  by (simp add: lines_from_def take_map take_upt)

lemma out_push_bytes:
  assumes "17 \<le> bufsiz" "length l \<le> 17" "out_inv bufsiz out"
  shows "\<exists>out'. out_push bufsiz out l = Inr out' \<and> out_bytes out' = out_bytes out @ l
           \<and> out_inv bufsiz out'"
  using assms
  by (auto simp: out_push_def out_len_def out_flush_def out_bytes_def out_inv_def Let_def)

lemma materialize_line:
  assumes "words_wf db" and "elem_valid_with_db b db" and "sum_list b = n"
    and "n < length pw" and "pw ! n = CHR 0x0A"
  shows "\<exists>pw'. elem_set_pwbuf b db p 0 pw = Inr pw' \<and> take (n + 1) pw' = cand_line db b p
           \<and> length pw' = length pw \<and> pw' ! n = CHR 0x0A"
proof -
  let ?c = "concat (chain_words db b p)"
  define pw' where "pw' = ?c @ drop n pw"
  have fit: "0 + sum_list b \<le> length pw" using assms(3,4) by simp
  have r: "elem_set_pwbuf b db p 0 pw = Inr pw'"
    using elem_set_pwbuf_result [OF assms(1,2) fit, of p] assms(3) by (simp add: pw'_def)
  have lc: "length ?c = n"
    using length_concat_chain_words [OF assms(1,2)] assms(3) by simp
  have d: "drop n pw = CHR 0x0A # drop (Suc n) pw"
    using assms(4,5) by (simp add: Cons_nth_drop_Suc [symmetric])
  have t: "take (n + 1) pw' = cand_line db b p"
    by (simp add: pw'_def lc d cand_line_def)
  have l: "length pw' = length pw" using assms(4) by (simp add: pw'_def lc)
  have nl: "pw' ! n = CHR 0x0A" by (simp add: pw'_def nth_append lc d)
  from r t l nl show ?thesis by blast
qed

lemma length_cand_line:
  "words_wf db \<Longrightarrow> elem_valid_with_db b db \<Longrightarrow> length (cand_line db b p) = sum_list b + 1"
  by (simp add: cand_line_def length_concat_chain_words)

lemma iter_loop_result:
  assumes wf: "words_wf db" and v: "elem_valid_with_db b db" and sm: "sum_list b = n"
    and n16: "n \<le> 16" and bs: "17 \<le> bufsiz"
  shows "n < length pw \<Longrightarrow> pw ! n = CHR 0x0A \<Longrightarrow> out_inv bufsiz out \<Longrightarrow>
     \<exists>out' pw'. iter_loop bufsiz db b n skp kp c i (out, tpos, pw) = Inr (out', tpos + int c, pw')
        \<and> out_bytes out' = out_bytes out @ concat (drop (nat (skp - tpos)) (lines_from db b kp i c))
        \<and> out_inv bufsiz out'"
proof (induction c arbitrary: i out tpos pw)
  case 0
  then show ?case by (simp add: lines_from_0)
next
  case (Suc c)
  show ?case
  proof (cases "skp \<le> tpos")
    case True
    from materialize_line [OF wf v sm Suc.prems(1,2), of "kp + int i"]
    obtain pw1 where pw1: "elem_set_pwbuf b db (kp + int i) 0 pw = Inr pw1"
      "take (n + 1) pw1 = cand_line db b (kp + int i)"
      "length pw1 = length pw" "pw1 ! n = CHR 0x0A" by blast
    have ll: "length (cand_line db b (kp + int i)) \<le> 17"
      using length_cand_line [OF wf v] sm n16 by simp
    from out_push_bytes [OF bs ll Suc.prems(3)]
    obtain out1 where out1: "out_push bufsiz out (cand_line db b (kp + int i)) = Inr out1"
      "out_bytes out1 = out_bytes out @ cand_line db b (kp + int i)" "out_inv bufsiz out1"
      by blast
    have n1: "n < length pw1" using pw1(3) Suc.prems(1) by simp
    from Suc.IH [OF n1 pw1(4) out1(3), of "Suc i" "tpos + 1"]
    obtain out' pw' where r:
      "iter_loop bufsiz db b n skp kp c (Suc i) (out1, tpos + 1, pw1) = Inr (out', tpos + 1 + int c, pw')"
      "out_bytes out' = out_bytes out1 @ concat (drop (nat (skp - (tpos + 1))) (lines_from db b kp (Suc i) c))"
      "out_inv bufsiz out'" by blast
    have z: "nat (skp - tpos) = 0" "nat (skp - (tpos + 1)) = 0" using True by simp_all
    have "iter_loop bufsiz db b n skp kp (Suc c) i (out, tpos, pw) = Inr (out', tpos + int (Suc c), pw')"
      using True pw1(1,2) out1(1) r(1) by (simp add: add.assoc add.commute)
    moreover have "out_bytes out' = out_bytes out
        @ concat (drop (nat (skp - tpos)) (lines_from db b kp i (Suc c)))"
      using r(2) out1(2) by (simp add: z lines_from_Suc)
    ultimately show ?thesis using r(3) by blast
  next
    case False
    from Suc.IH [OF Suc.prems, of "Suc i" "tpos + 1"]
    obtain out' pw' where r:
      "iter_loop bufsiz db b n skp kp c (Suc i) (out, tpos + 1, pw) = Inr (out', tpos + 1 + int c, pw')"
      "out_bytes out' = out_bytes out @ concat (drop (nat (skp - (tpos + 1))) (lines_from db b kp (Suc i) c))"
      "out_inv bufsiz out'" by blast
    have z: "nat (skp - tpos) = Suc (nat (skp - (tpos + 1)))" using False by simp
    have "iter_loop bufsiz db b n skp kp (Suc c) i (out, tpos, pw) = Inr (out', tpos + int (Suc c), pw')"
      using False r(1) by (simp add: add.assoc add.commute)
    moreover have "out_bytes out' = out_bytes out
        @ concat (drop (nat (skp - tpos)) (lines_from db b kp i (Suc c)))"
      using r(2) by (simp only: z lines_from_Suc drop_Suc_Cons)
    ultimately show ?thesis using r(3) by blast
  qed
qed

lemma mpz_get_ui_nat: "0 \<le> z \<Longrightarrow> z < 2 ^ 64 \<Longrightarrow> mpz_get_ui z = nat z"
  by (simp add: mpz_get_ui_def)

lemma out_flush_bytes: "out_flush out = \<lparr>fp = out_bytes out, obuf = []\<rparr>"
  by (simp add: out_flush_def out_bytes_def)

lemma visit_slot_abstract:
  assumes pf: "platform_ok pf" and wf: "words_wf db" and ok: "slot_ok db n"
    and act: "elems_pos (db n) < elems_cnt (db n)"
    and tT: "tpos \<le> T" and w64: "int (wd n) < 2 ^ 64" and ob: "obuf out = []"
  shows "visit_slot pf wd skp T n \<lparr>st_db = db, st_out = out, st_total_ks_pos = tpos\<rparr> =
           Inr \<lparr>st_db = fst (fst (a_visit wd T n (db, tpos))),
                st_out = \<lparr>fp = fp out @ concat (drop (nat (skp - tpos)) (snd (a_visit wd T n (db, tpos)))),
                          obuf = []\<rparr>,
                st_total_ks_pos = snd (fst (a_visit wd T n (db, tpos)))\<rparr>"
proof -
  define e where "e = elems_buf (db n) ! elems_pos (db n)"
  define im where "im = iter_max_of wd T tpos e n"
  define pw where "pw = (pw_buf_init pf)[n := CHR 0x0A]"
  from act have ein: "e \<in> set (elems_buf (db n))"
    by (simp add: e_def elems_cnt_def)
  with ok have e: "0 \<le> ks_pos e" "ks_pos e < ks_cnt e" "elem_valid_with_db (buf e) db"
    "sum_list (buf e) = n" and n16: "n \<le> 16"
    by (auto simp: slot_ok_def)
  have im0: "0 \<le> im" using e(2) tT by (simp add: im_def iter_max_of_def)
  have im64: "im < 2 ^ 64" using w64 by (simp add: im_def iter_max_of_def)
  have ui: "mpz_get_ui im = nat im" using im0 im64 by (rule mpz_get_ui_nat)
  from pf have bs: "17 \<le> BUFSIZ pf" and lp: "length (pw_buf_init pf) = nat (BUFSIZ pf)"
    by (simp_all add: platform_ok_def)
  have npw: "n < length pw" using n16 bs lp by (simp add: pw_def)
  have nl: "pw ! n = CHR 0x0A" using n16 bs lp by (simp add: pw_def)
  have oi: "out_inv (BUFSIZ pf) out" using ob by (simp add: out_inv_def out_len_def)
  from iter_loop_result [OF wf e(3,4) n16 bs npw nl oi, of skp "ks_pos e" "nat im" 0 tpos]
  obtain out' pw' where r:
    "iter_loop (BUFSIZ pf) db (buf e) n skp (ks_pos e) (nat im) 0 (out, tpos, pw)
       = Inr (out', tpos + int (nat im), pw')"
    "out_bytes out' = out_bytes out @ concat (drop (nat (skp - tpos)) (lines_from db (buf e) (ks_pos e) 0 (nat im)))"
    by blast
  have tp: "tpos + int (nat im) = tpos + im" using im0 by simp
  have av: "a_visit wd T n (db, tpos) =
      ((db(n := advance (db n) im), tpos + im), lines_from db (buf e) (ks_pos e) 0 (nat im))"
    by (simp add: a_visit_def Let_def e_def im_def)
  have fl: "out_flush out' = \<lparr>fp = fp out @ concat (drop (nat (skp - tpos))
              (lines_from db (buf e) (ks_pos e) 0 (nat im))), obuf = []\<rparr>"
    using r(2) ob by (simp add: out_flush_bytes out_bytes_def)
  have imx: "(let iter_max0 = ks_cnt e - ks_pos e; wc = wd n;
                 iter_max1 = (if iter_max0 > int wc then int wc else iter_max0);
                 total_ks_left = T - tpos
             in (if total_ks_left < iter_max1 then total_ks_left else iter_max1)) = im"
    by (simp add: im_def iter_max_of_def Let_def min_def)
  show ?thesis
    unfolding visit_slot_def av fst_conv snd_conv
    using act r(1) [unfolded tp] imx im0
    by (simp add: Let_def e_def [symmetric] pw_def [symmetric] ui fl advance_def)
qed

lemma same_words_trans: "same_words a b \<Longrightarrow> same_words b c \<Longrightarrow> same_words a c"
  by (simp add: same_words_def)

lemma slot_ok_same_words:
  "same_words db' db \<Longrightarrow> db' k = db k \<Longrightarrow> slot_ok db k \<Longrightarrow> slot_ok db' k"
  by (simp add: slot_ok_def elem_valid_same_words)

lemma advance_words: "words_buf (advance entry im) = words_buf entry"
  by (simp add: advance_def Let_def)

lemma a_visit_step_ok:
  assumes ok: "db_ok L wd db" and nL: "n \<in> L"
    and act: "elems_pos (db n) < elems_cnt (db n)" and tT: "tpos \<le> T"
  shows "step_ok L wd T db tpos (a_visit wd T n (db, tpos))"
proof -
  define e where "e = elems_buf (db n) ! elems_pos (db n)"
  define im where "im = iter_max_of wd T tpos e n"
  define db' where "db' = db(n := advance (db n) im)"
  have av: "a_visit wd T n (db, tpos) = ((db', tpos + im), lines_from db (buf e) (ks_pos e) 0 (nat im))"
    by (simp add: a_visit_def Let_def e_def im_def db'_def)
  from ok nL have sok: "slot_ok db n" and wf: "words_wf db" by (simp_all add: db_ok_def)
  from act have ein: "e \<in> set (elems_buf (db n))" and pl: "elems_pos (db n) < length (elems_buf (db n))"
    by (simp_all add: e_def elems_cnt_def)
  with sok have e: "0 \<le> ks_pos e" "ks_pos e < ks_cnt e" "elem_valid_with_db (buf e) db"
    "sum_list (buf e) = n" and n16: "n \<le> 16"
    by (auto simp: slot_ok_def)
  have im0: "0 \<le> im" using e(2) tT by (simp add: im_def iter_max_of_def)
  have imT: "im \<le> T - tpos" and imk: "ks_pos e + im \<le> ks_cnt e"
    by (simp_all add: im_def iter_max_of_def)
  have sw: "same_words db' db"
    by (simp add: same_words_def db'_def advance_words)
  have wf': "words_wf db'" using wf by (simp add: words_wf_same_words [OF sw])
  have other: "\<And>k. k \<noteq> n \<Longrightarrow> db' k = db k" by (simp add: db'_def)
  have sn: "slot_ok db' n"
  proof -
    let ?e1 = "e\<lparr>ks_pos := ks_pos e + im\<rparr>"
    define P where "P = (\<lambda>x::elem_t. 0 \<le> ks_pos x \<and> ks_pos x < ks_cnt x
        \<and> elem_valid_with_db (buf x) db' \<and> sum_list (buf x) = n)"
    have so: "\<And>d. slot_ok d n \<longleftrightarrow> n \<le> 16 \<and> elems_pos (d n) \<le> length (elems_buf (d n))
        \<and> (\<forall>x \<in> set (elems_buf (d n)). 0 \<le> ks_pos x \<and> ks_pos x < ks_cnt x
              \<and> elem_valid_with_db (buf x) d \<and> sum_list (buf x) = n)"
      by (simp add: slot_ok_def)
    have g1: "P (?e1\<lparr>ks_pos := 0\<rparr>)"
      using e by (simp add: P_def elem_valid_same_words [OF sw])
    have g2: "ks_pos ?e1 \<noteq> ks_cnt ?e1 \<Longrightarrow> P ?e1"
      using e im0 imk by (simp add: P_def elem_valid_same_words [OF sw])
    have old: "\<forall>x \<in> set (elems_buf (db n)). P x"
      using sok by (simp add: P_def slot_ok_def elem_valid_same_words [OF sw])
    have upd: "\<And>y. P y \<Longrightarrow> \<forall>x \<in> set ((elems_buf (db n))[elems_pos (db n) := y]). P x"
      using old set_update_subset_insert by fastforce
    show ?thesis
    proof (cases "ks_pos ?e1 = ks_cnt ?e1")
      case True
      then have d: "db' n = (db n)\<lparr>elems_buf := (elems_buf (db n))[elems_pos (db n) := ?e1\<lparr>ks_pos := 0\<rparr>],
                 elems_pos := Suc (elems_pos (db n))\<rparr>"
        by (simp add: db'_def advance_def Let_def e_def)
      have "\<forall>x \<in> set (elems_buf (db' n)). P x"
        unfolding d using upd [OF g1] by simp
      moreover have "elems_pos (db' n) \<le> length (elems_buf (db' n))"
        unfolding d using pl by simp
      ultimately show ?thesis
        unfolding so [of db'] using n16 by (simp add: P_def)
    next
      case False
      then have d: "db' n = (db n)\<lparr>elems_buf := (elems_buf (db n))[elems_pos (db n) := ?e1]\<rparr>"
        by (simp add: db'_def advance_def Let_def e_def)
      have "\<forall>x \<in> set (elems_buf (db' n)). P x"
        unfolding d using upd [OF g2 [OF False]] by simp
      moreover have "elems_pos (db' n) \<le> length (elems_buf (db' n))"
        unfolding d using pl by simp
      ultimately show ?thesis
        unfolding so [of db'] using n16 by (simp add: P_def)
    qed
  qed
  have "\<forall>k \<in> L. slot_ok db' k \<and> int (wd k) < 2 ^ 64"
  proof
    fix k assume kL: "k \<in> L"
    with ok have a: "slot_ok db k" "int (wd k) < 2 ^ 64" by (simp_all add: db_ok_def)
    show "slot_ok db' k \<and> int (wd k) < 2 ^ 64"
    proof (cases "k = n")
      case True
      with sn a(2) show ?thesis by simp
    next
      case False
      from slot_ok_same_words [OF sw other [OF False] a(1)] a(2) show ?thesis by simp
    qed
  qed
  with wf' have "db_ok L wd db'" by (simp add: db_ok_def)
  then show ?thesis
    using im0 imT sw by (simp add: step_ok_def av length_lines_from)
qed

lemma step_ok_nil: "db_ok L wd db \<Longrightarrow> tpos \<le> T \<Longrightarrow> step_ok L wd T db tpos ((db, tpos), [])"
  by (simp add: step_ok_def same_words_refl)

lemma step_ok_seq:
  assumes "step_ok L wd T db tpos r1" and "step_ok L wd T (fst (fst r1)) (snd (fst r1)) r2"
  shows "step_ok L wd T db tpos (fst r2, snd r1 @ snd r2)"
  using assms by (auto simp: step_ok_def intro: same_words_trans)

lemma a_round_step_ok:
  "db_ok L wd db \<Longrightarrow> len ` set os \<subseteq> L \<Longrightarrow> tpos \<le> T \<Longrightarrow>
     step_ok L wd T db tpos (a_round wd T os (db, tpos))"
proof (induction os arbitrary: db tpos)
  case Nil
  then show ?case by (simp add: step_ok_nil)
next
  case (Cons po os)
  from Cons.prems have sub: "len ` set os \<subseteq> L" and nL: "len po \<in> L" by auto
  show ?case
  proof (cases "elems_pos (db (len po)) = elems_cnt (db (len po))")
    case True
    with Cons.IH [OF Cons.prems(1) sub Cons.prems(3)] show ?thesis by simp
  next
    case False
    from Cons.prems(1) nL have "slot_ok db (len po)" by (simp add: db_ok_def)
    with False have act: "elems_pos (db (len po)) < elems_cnt (db (len po))"
      by (simp add: slot_ok_def elems_cnt_def)
    define r1 where "r1 = a_visit wd T (len po) (db, tpos)"
    have s1: "step_ok L wd T db tpos r1"
      unfolding r1_def by (rule a_visit_step_ok [OF Cons.prems(1) nL act Cons.prems(3)])
    show ?thesis
    proof (cases "snd (fst r1) = T")
      case True
      with False s1 show ?thesis by (simp add: r1_def Let_def)
    next
      case nT: False
      from s1 have o1: "db_ok L wd (fst (fst r1))" and t1: "snd (fst r1) \<le> T"
        by (simp_all add: step_ok_def)
      from Cons.IH [OF o1 sub t1]
      have s2: "step_ok L wd T (fst (fst r1)) (snd (fst r1)) (a_round wd T os (fst r1))"
        by simp
      from step_ok_seq [OF s1 s2] False nT show ?thesis
        by (simp add: r1_def Let_def)
    qed
  qed
qed

lemma a_main_step_ok:
  "db_ok L wd db \<Longrightarrow> len ` set os \<subseteq> L \<Longrightarrow> tpos \<le> T \<Longrightarrow>
     a_main fuel wd T os (db, tpos) = Some r \<Longrightarrow>
     step_ok L wd T db tpos r \<and> snd (fst r) = T"
proof (induction fuel arbitrary: db tpos r)
  case 0
  then show ?case by (auto simp: step_ok_nil split: if_splits)
next
  case (Suc fuel)
  show ?case
  proof (cases "tpos < T")
    case True
    define r1 where "r1 = a_round wd T os (db, tpos)"
    have s1: "step_ok L wd T db tpos r1"
      unfolding r1_def by (rule a_round_step_ok [OF Suc.prems(1,2,3)])
    from Suc.prems(4) True obtain r2 where r2: "a_main fuel wd T os (fst r1) = Some r2"
      and r: "r = (fst r2, snd r1 @ snd r2)"
      by (auto simp: r1_def Let_def split: option.splits)
    from s1 have o1: "db_ok L wd (fst (fst r1))" and t1: "snd (fst r1) \<le> T"
      by (simp_all add: step_ok_def)
    from Suc.IH [OF o1 Suc.prems(2) t1, of r2] r2
    have s2: "step_ok L wd T (fst (fst r1)) (snd (fst r1)) r2" and e: "snd (fst r2) = T"
      by simp_all
    from step_ok_seq [OF s1 s2] e show ?thesis by (simp add: r)
  next
    case False
    with Suc.prems show ?thesis by (auto simp: step_ok_nil)
  qed
qed

lemma drop_lines_split:
  assumes "tpos \<le> tpos1" and "length l1 = nat (tpos1 - tpos)"
  shows "drop (nat (skp - tpos)) (l1 @ l2)
           = drop (nat (skp - tpos)) l1 @ drop (nat (skp - tpos1)) l2"
proof -
  have "nat (skp - tpos) - length l1 = nat (skp - tpos1)"
    using assms by simp
  then show ?thesis by simp
qed

lemma loop_result_nil:
  "obuf out = [] \<Longrightarrow>
     loop_result out skp tpos ((db, tpos), []) = \<lparr>st_db = db, st_out = out, st_total_ks_pos = tpos\<rparr>"
  by (simp add: loop_result_def)

lemma loop_result_seq:
  assumes "step_ok L wd T db tpos r1"
  shows "loop_result (st_out (loop_result out skp tpos r1)) skp (snd (fst r1)) r2
           = loop_result out skp tpos (fst r2, snd r1 @ snd r2)"
proof -
  from assms have "tpos \<le> snd (fst r1)" "length (snd r1) = nat (snd (fst r1) - tpos)"
    by (simp_all add: step_ok_def)
  from drop_lines_split [OF this] show ?thesis
    by (simp add: loop_result_def)
qed

lemma loop_result_state:
  "loop_result out skp tpos r =
     \<lparr>st_db = fst (fst r), st_out = st_out (loop_result out skp tpos r),
      st_total_ks_pos = snd (fst r)\<rparr>"
  by (simp add: loop_result_def)

lemma loop_result_obuf: "obuf (st_out (loop_result out skp tpos r)) = []"
  by (simp add: loop_result_def)

lemma round_loop_abstract:
  assumes pf: "platform_ok pf"
  shows "db_ok L wd db \<Longrightarrow> len ` set os \<subseteq> L \<Longrightarrow> tpos \<le> T \<Longrightarrow> obuf out = [] \<Longrightarrow>
     round_loop pf wd skp T os \<lparr>st_db = db, st_out = out, st_total_ks_pos = tpos\<rparr>
       = Inr (loop_result out skp tpos (a_round wd T os (db, tpos)))"
proof (induction os arbitrary: db tpos out)
  case Nil
  then show ?case by (simp add: loop_result_nil)
next
  case (Cons po os)
  from Cons.prems have sub: "len ` set os \<subseteq> L" and nL: "len po \<in> L" by auto
  let ?st = "\<lparr>st_db = db, st_out = out, st_total_ks_pos = tpos\<rparr>"
  show ?case
  proof (cases "elems_pos (db (len po)) = elems_cnt (db (len po))")
    case True
    with Cons.IH [OF Cons.prems(1) sub Cons.prems(3,4)] show ?thesis by simp
  next
    case False
    from Cons.prems(1) nL have sok: "slot_ok db (len po)" and wf: "words_wf db"
      and w64: "int (wd (len po)) < 2 ^ 64" by (simp_all add: db_ok_def)
    with False have act: "elems_pos (db (len po)) < elems_cnt (db (len po))"
      by (simp add: slot_ok_def elems_cnt_def)
    define r1 where "r1 = a_visit wd T (len po) (db, tpos)"
    have s1: "step_ok L wd T db tpos r1"
      unfolding r1_def by (rule a_visit_step_ok [OF Cons.prems(1) nL act Cons.prems(3)])
    have v: "visit_slot pf wd skp T (len po) ?st = Inr (loop_result out skp tpos r1)"
      using visit_slot_abstract [where db = db and n = "len po" and wd = wd and skp = skp,
              OF pf wf sok act Cons.prems(3) w64 Cons.prems(4)]
      by (simp add: loop_result_def r1_def)
    show ?thesis
    proof (cases "snd (fst r1) = T")
      case True
      then have "st_total_ks_pos (loop_result out skp tpos r1) = T"
        by (simp add: loop_result_def)
      with False True v show ?thesis by (simp add: r1_def Let_def)
    next
      case nT: False
      then have nT': "st_total_ks_pos (loop_result out skp tpos r1) \<noteq> T"
        by (simp add: loop_result_def)
      from s1 have o1: "db_ok L wd (fst (fst r1))" and t1: "snd (fst r1) \<le> T"
        by (simp_all add: step_ok_def)
      have "round_loop pf wd skp T os (loop_result out skp tpos r1)
          = Inr (loop_result (st_out (loop_result out skp tpos r1)) skp (snd (fst r1))
                   (a_round wd T os (fst r1)))"
        using Cons.IH [OF o1 sub t1 loop_result_obuf, of out skp tpos r1]
        by (subst loop_result_state) simp
      then have "round_loop pf wd skp T os (loop_result out skp tpos r1)
          = Inr (loop_result out skp tpos (fst (a_round wd T os (fst r1)),
                   snd r1 @ snd (a_round wd T os (fst r1))))"
        by (simp only: loop_result_seq [OF s1])
      with False nT nT' v show ?thesis by (simp add: r1_def Let_def)
    qed
  qed
qed

lemma main_loop_abstract:
  assumes pf: "platform_ok pf"
  shows "db_ok L wd db \<Longrightarrow> len ` set os \<subseteq> L \<Longrightarrow> tpos \<le> T \<Longrightarrow> obuf out = [] \<Longrightarrow>
     main_loop fuel pf wd skp T os \<lparr>st_db = db, st_out = out, st_total_ks_pos = tpos\<rparr>
       = (case a_main fuel wd T os (db, tpos) of
            None \<Rightarrow> Inl OutOfFuel
          | Some r \<Rightarrow> Inr (loop_result out skp tpos r))"
proof (induction fuel arbitrary: db tpos out)
  case 0
  then show ?case by (simp add: loop_result_nil)
next
  case (Suc fuel)
  show ?case
  proof (cases "tpos < T")
    case True
    define r1 where "r1 = a_round wd T os (db, tpos)"
    have s1: "step_ok L wd T db tpos r1"
      unfolding r1_def by (rule a_round_step_ok [OF Suc.prems(1,2,3)])
    from s1 have o1: "db_ok L wd (fst (fst r1))" and t1: "snd (fst r1) \<le> T"
      by (simp_all add: step_ok_def)
    have rl: "round_loop pf wd skp T os \<lparr>st_db = db, st_out = out, st_total_ks_pos = tpos\<rparr>
        = Inr (loop_result out skp tpos r1)"
      unfolding r1_def by (rule round_loop_abstract [OF pf Suc.prems])
    have "main_loop fuel pf wd skp T os (loop_result out skp tpos r1)
        = (case a_main fuel wd T os (fst r1) of
             None \<Rightarrow> Inl OutOfFuel
           | Some r \<Rightarrow> Inr (loop_result (st_out (loop_result out skp tpos r1)) skp (snd (fst r1)) r))"
      using Suc.IH [OF o1 Suc.prems(2) t1 loop_result_obuf, of out skp tpos r1]
      by (subst loop_result_state) simp
    then have "main_loop fuel pf wd skp T os (loop_result out skp tpos r1)
        = (case a_main fuel wd T os (fst r1) of
             None \<Rightarrow> Inl OutOfFuel
           | Some r \<Rightarrow> Inr (loop_result out skp tpos (fst r, snd r1 @ snd r)))"
      by (simp only: loop_result_seq [OF s1])
    with True rl show ?thesis
      by (simp add: r1_def Let_def split: option.splits)
  next
    case False
    with Suc.prems show ?thesis by (simp add: loop_result_nil)
  qed
qed

subsection \<open>The loop ends\<close>

lemma slot_rem_advance:
  assumes "elems_pos entry < length (elems_buf entry)"
  shows "slot_rem (advance entry im) = slot_rem entry - im"
proof -
  let ?xs = "elems_buf entry" and ?i = "elems_pos entry"
  let ?e = "?xs ! ?i"
  have d: "drop ?i ?xs = ?e # drop (Suc ?i) ?xs"
    using assms by (simp add: Cons_nth_drop_Suc)
  have du: "\<And>y. drop ?i (?xs[?i := y]) = y # drop (Suc ?i) ?xs"
    using assms by (metis Cons_nth_drop_Suc drop_update_cancel length_list_update lessI nth_list_update_eq)
  show ?thesis
    using assms by (auto simp: slot_rem_def advance_def Let_def d du)
qed

lemma sum_list_map_upd:
  "distinct ls \<Longrightarrow> n \<in> set ls \<Longrightarrow>
     sum_list (map (\<lambda>k. f ((db(n := v)) k)) ls) = sum_list (map (\<lambda>k. f (db k)) ls) - f (db n) + (f v :: int)"
proof (induction ls)
  case Nil
  then show ?case by simp
next
  case (Cons a ls)
  show ?case
  proof (cases "a = n")
    case True
    with Cons.prems have "n \<notin> set ls" by simp
    then have "sum_list (map (\<lambda>k. f ((db(n := v)) k)) ls) = sum_list (map (\<lambda>k. f (db k)) ls)"
      by (intro arg_cong [where f = sum_list] map_cong) auto
    with True show ?thesis by simp
  next
    case False
    with Cons show ?thesis by simp
  qed
qed

lemma ks_rem_visit:
  assumes "distinct ls" and "n \<in> set ls" and "elems_pos (db n) < length (elems_buf (db n))"
  shows "ks_rem ls (db(n := advance (db n) im)) = ks_rem ls db - im"
  using sum_list_map_upd [OF assms(1,2), of slot_rem db "advance (db n) im"]
    slot_rem_advance [OF assms(3), of im]
  by (simp add: ks_rem_def)

lemma a_visit_rem_ok:
  assumes "distinct ls" and "n \<in> set ls" and "elems_pos (db n) < elems_cnt (db n)"
    and "rem_ok ls T (db, tpos)"
  shows "rem_ok ls T (fst (a_visit wd T n (db, tpos)))"
  using assms ks_rem_visit [OF assms(1,2), of db]
  by (simp add: rem_ok_def a_visit_def Let_def elems_cnt_def)

lemma a_round_rem_ok:
  "distinct ls \<Longrightarrow> db_ok (set ls) wd db \<Longrightarrow> len ` set os \<subseteq> set ls \<Longrightarrow> tpos \<le> T \<Longrightarrow>
     rem_ok ls T (db, tpos) \<Longrightarrow> rem_ok ls T (fst (a_round wd T os (db, tpos)))"
proof (induction os arbitrary: db tpos)
  case Nil
  then show ?case by simp
next
  case (Cons po os)
  from Cons.prems have sub: "len ` set os \<subseteq> set ls" and nL: "len po \<in> set ls" by auto
  show ?case
  proof (cases "elems_pos (db (len po)) = elems_cnt (db (len po))")
    case True
    with Cons.IH [OF Cons.prems(1,2) sub Cons.prems(4,5)] show ?thesis by simp
  next
    case False
    from Cons.prems(2) nL have "slot_ok db (len po)" by (simp add: db_ok_def)
    with False have act: "elems_pos (db (len po)) < elems_cnt (db (len po))"
      by (simp add: slot_ok_def elems_cnt_def)
    define r1 where "r1 = a_visit wd T (len po) (db, tpos)"
    have s1: "step_ok (set ls) wd T db tpos r1"
      unfolding r1_def by (rule a_visit_step_ok [OF Cons.prems(2) nL act Cons.prems(4)])
    have m1: "rem_ok ls T (fst r1)"
      unfolding r1_def by (rule a_visit_rem_ok [OF Cons.prems(1) nL act Cons.prems(5)])
    show ?thesis
    proof (cases "snd (fst r1) = T")
      case True
      with False m1 show ?thesis by (simp add: r1_def Let_def)
    next
      case nT: False
      from s1 have o1: "db_ok (set ls) wd (fst (fst r1))" and t1: "snd (fst r1) \<le> T"
        by (simp_all add: step_ok_def)
      from Cons.IH [OF Cons.prems(1) o1 sub t1] m1
      have "rem_ok ls T (fst (a_round wd T os (fst r1)))" by simp
      with False nT show ?thesis by (simp add: r1_def Let_def)
    qed
  qed
qed

lemma a_visit_progress:
  assumes ok: "db_ok L wd db" and nL: "n \<in> L"
    and act: "elems_pos (db n) < elems_cnt (db n)" and tT: "tpos < T" and w: "0 < wd n"
  shows "tpos < snd (fst (a_visit wd T n (db, tpos)))"
proof -
  from ok nL have "slot_ok db n" by (simp add: db_ok_def)
  moreover from act have "elems_buf (db n) ! elems_pos (db n) \<in> set (elems_buf (db n))"
    by (simp add: elems_cnt_def)
  ultimately have "ks_pos (elems_buf (db n) ! elems_pos (db n)) < ks_cnt (elems_buf (db n) ! elems_pos (db n))"
    by (simp add: slot_ok_def)
  with tT w show ?thesis
    by (simp add: a_visit_def Let_def iter_max_of_def)
qed

lemma a_round_progress:
  "db_ok L wd db \<Longrightarrow> len ` set os \<subseteq> L \<Longrightarrow> tpos < T \<Longrightarrow> \<forall>n \<in> L. 0 < wd n \<Longrightarrow>
     \<exists>po \<in> set os. elems_pos (db (len po)) \<noteq> elems_cnt (db (len po)) \<Longrightarrow>
     tpos < snd (fst (a_round wd T os (db, tpos)))"
proof (induction os arbitrary: db tpos)
  case Nil
  then show ?case by simp
next
  case (Cons po os)
  from Cons.prems have sub: "len ` set os \<subseteq> L" and nL: "len po \<in> L" by auto
  show ?case
  proof (cases "elems_pos (db (len po)) = elems_cnt (db (len po))")
    case True
    with Cons.prems(5) have "\<exists>po \<in> set os. elems_pos (db (len po)) \<noteq> elems_cnt (db (len po))"
      by auto
    from Cons.IH [OF Cons.prems(1) sub Cons.prems(3,4) this] True show ?thesis by simp
  next
    case False
    from Cons.prems(1) nL have "slot_ok db (len po)" by (simp add: db_ok_def)
    with False have act: "elems_pos (db (len po)) < elems_cnt (db (len po))"
      by (simp add: slot_ok_def elems_cnt_def)
    from Cons.prems(3) have tT: "tpos \<le> T" by simp
    define r1 where "r1 = a_visit wd T (len po) (db, tpos)"
    have s1: "step_ok L wd T db tpos r1"
      unfolding r1_def by (rule a_visit_step_ok [OF Cons.prems(1) nL act tT])
    have p1: "tpos < snd (fst r1)"
      unfolding r1_def using Cons.prems(4) nL
      by (intro a_visit_progress [OF Cons.prems(1) nL act Cons.prems(3)]) simp
    show ?thesis
    proof (cases "snd (fst r1) = T")
      case True
      with False p1 show ?thesis by (simp add: r1_def Let_def)
    next
      case nT: False
      from s1 have o1: "db_ok L wd (fst (fst r1))" and t1: "snd (fst r1) \<le> T"
        by (simp_all add: step_ok_def)
      from a_round_step_ok [OF o1 sub t1]
      have "snd (fst r1) \<le> snd (fst (a_round wd T os (fst r1)))"
        by (simp add: step_ok_def)
      with p1 False nT show ?thesis by (simp add: r1_def Let_def)
    qed
  qed
qed

lemma sum_list_nonpos: "\<forall>x \<in> set xs. f x \<le> (0::int) \<Longrightarrow> sum_list (map f xs) \<le> 0"
  by (induction xs) auto

lemma rem_ok_active:
  assumes "rem_ok ls T (db, tpos)" and "tpos < T"
  shows "\<exists>n \<in> set ls. elems_pos (db n) \<noteq> elems_cnt (db n)"
proof (rule ccontr)
  assume "\<not> ?thesis"
  then have "\<forall>n \<in> set ls. slot_rem (db n) \<le> 0"
    by (simp add: slot_rem_def elems_cnt_def)
  then have "ks_rem ls db \<le> 0" unfolding ks_rem_def by (rule sum_list_nonpos)
  with assms show False by (simp add: rem_ok_def)
qed

lemma a_main_terminates:
  assumes d: "distinct ls" and os: "len ` set os = set ls" and w: "\<forall>n \<in> set ls. 0 < wd n"
  shows "db_ok (set ls) wd db \<Longrightarrow> tpos \<le> T \<Longrightarrow> rem_ok ls T (db, tpos) \<Longrightarrow>
     nat (T - tpos) \<le> fuel \<Longrightarrow> \<exists>r. a_main fuel wd T os (db, tpos) = Some r"
proof (induction fuel arbitrary: db tpos)
  case 0
  then show ?case by simp
next
  case (Suc fuel)
  show ?case
  proof (cases "tpos < T")
    case True
    from os have sub: "len ` set os \<subseteq> set ls" by simp
    define r1 where "r1 = a_round wd T os (db, tpos)"
    have s1: "step_ok (set ls) wd T db tpos r1"
      unfolding r1_def by (rule a_round_step_ok [OF Suc.prems(1) sub Suc.prems(2)])
    have m1: "rem_ok ls T (fst r1)"
      unfolding r1_def by (rule a_round_rem_ok [OF d Suc.prems(1) sub Suc.prems(2,3)])
    from rem_ok_active [OF Suc.prems(3) True] os
    have "\<exists>po \<in> set os. elems_pos (db (len po)) \<noteq> elems_cnt (db (len po))"
      by (metis (no_types, lifting) imageE)
    from a_round_progress [OF Suc.prems(1) sub True w this]
    have p1: "tpos < snd (fst r1)" by (simp add: r1_def)
    from s1 have o1: "db_ok (set ls) wd (fst (fst r1))" and t1: "snd (fst r1) \<le> T"
      by (simp_all add: step_ok_def)
    have f1: "nat (T - snd (fst r1)) \<le> fuel" using p1 Suc.prems(4) by simp
    from Suc.IH [OF o1 t1 _ f1] m1
    obtain r2 where "a_main fuel wd T os (fst r1) = Some r2" by auto
    with True show ?thesis by (simp add: r1_def Let_def)
  next
    case False
    then show ?thesis by simp
  qed
qed

subsection \<open>A run with a smaller total visits a prefix\<close>

lemma take_lines_from_min:
  "take c (lines_from db b kp i d) = lines_from db b kp i (min c d)"
proof (cases "c \<le> d")
  case True
  then show ?thesis by (simp add: take_lines_from min_def)
next
  case False
  then show ?thesis by (simp add: length_lines_from min_def)
qed

lemma a_visit_prefix:
  assumes KN: "K \<le> N"
  shows "snd (a_visit wd K n (db, tpos)) = take (nat (K - tpos)) (snd (a_visit wd N n (db, tpos)))"
    and "snd (fst (a_visit wd K n (db, tpos))) < K \<Longrightarrow>
           a_visit wd K n (db, tpos) = a_visit wd N n (db, tpos)"
proof -
  define e where "e = elems_buf (db n) ! elems_pos (db n)"
  define m where "m = min (ks_cnt e - ks_pos e) (int (wd n))"
  have iK: "iter_max_of wd K tpos e n = min m (K - tpos)"
    and iN: "iter_max_of wd N tpos e n = min m (N - tpos)"
    by (simp_all add: iter_max_of_def m_def)
  have "min m (K - tpos) = min (K - tpos) (min m (N - tpos))" using KN by simp
  then have "nat (min m (K - tpos)) = min (nat (K - tpos)) (nat (min m (N - tpos)))"
    by (simp add: min_def)
  then show "snd (a_visit wd K n (db, tpos)) = take (nat (K - tpos)) (snd (a_visit wd N n (db, tpos)))"
    by (simp add: a_visit_def Let_def e_def [symmetric] iK iN take_lines_from_min)
  assume "snd (fst (a_visit wd K n (db, tpos))) < K"
  then have "min m (K - tpos) < K - tpos"
    by (simp add: a_visit_def Let_def e_def [symmetric] iK)
  then have "min m (K - tpos) = min m (N - tpos)" using KN by linarith
  then show "a_visit wd K n (db, tpos) = a_visit wd N n (db, tpos)"
    by (simp add: a_visit_def Let_def e_def [symmetric] iK iN)
qed

lemma take_append_short:
  assumes "tpos \<le> tpos1" "tpos1 \<le> K" "length l1 = nat (tpos1 - tpos)"
  shows "take (nat (K - tpos)) (l1 @ l2) = l1 @ take (nat (K - tpos1)) l2"
proof -
  have "nat (K - tpos) - length l1 = nat (K - tpos1)" "length l1 \<le> nat (K - tpos)"
    using assms by simp_all
  then show ?thesis by simp
qed

lemma take_append_long:
  assumes "l1 = take k l" and "length l1 = k"
  shows "take k (l @ l2) = l1"
proof -
  from assms have "k \<le> length l" by (metis length_take min.cobounded1)
  with assms(1) show ?thesis by simp
qed

lemma a_round_prefix:
  assumes KN: "K \<le> N"
  shows "db_ok L wd db \<Longrightarrow> len ` set os \<subseteq> L \<Longrightarrow> tpos \<le> K \<Longrightarrow>
     snd (a_round wd K os (db, tpos)) = take (nat (K - tpos)) (snd (a_round wd N os (db, tpos)))
     \<and> (snd (fst (a_round wd K os (db, tpos))) < K \<longrightarrow>
          a_round wd K os (db, tpos) = a_round wd N os (db, tpos))"
proof (induction os arbitrary: db tpos)
  case Nil
  then show ?case by simp
next
  case (Cons po os)
  from Cons.prems have sub: "len ` set os \<subseteq> L" and nL: "len po \<in> L" by auto
  show ?case
  proof (cases "elems_pos (db (len po)) = elems_cnt (db (len po))")
    case True
    with Cons.IH [OF Cons.prems(1) sub Cons.prems(3)] show ?thesis by simp
  next
    case False
    from Cons.prems(1) nL have "slot_ok db (len po)" by (simp add: db_ok_def)
    with False have act: "elems_pos (db (len po)) < elems_cnt (db (len po))"
      by (simp add: slot_ok_def elems_cnt_def)
    define rK where "rK = a_visit wd K (len po) (db, tpos)"
    define rN where "rN = a_visit wd N (len po) (db, tpos)"
    have sK: "step_ok L wd K db tpos rK"
      unfolding rK_def by (rule a_visit_step_ok [OF Cons.prems(1) nL act Cons.prems(3)])
    have lK: "snd rK = take (nat (K - tpos)) (snd rN)"
      unfolding rK_def rN_def by (rule a_visit_prefix(1) [OF KN])
    from sK have tK: "tpos \<le> snd (fst rK)" "snd (fst rK) \<le> K"
      and lenK: "length (snd rK) = nat (snd (fst rK) - tpos)"
      and oK: "db_ok L wd (fst (fst rK))"
      by (simp_all add: step_ok_def)
    have unfK: "a_round wd K (po # os) (db, tpos) =
        (if snd (fst rK) = K then rK
         else (fst (a_round wd K os (fst rK)), snd rK @ snd (a_round wd K os (fst rK))))"
      using False by (simp add: rK_def Let_def)
    have unfN: "a_round wd N (po # os) (db, tpos) =
        (if snd (fst rN) = N then rN
         else (fst (a_round wd N os (fst rN)), snd rN @ snd (a_round wd N os (fst rN))))"
      using False by (simp add: rN_def Let_def)
    show ?thesis
    proof (cases "snd (fst rK) < K")
      case True
      then have eq: "rK = rN"
        unfolding rK_def rN_def by (rule a_visit_prefix(2) [OF KN])
      from True KN have nK: "snd (fst rK) \<noteq> K" and nN: "snd (fst rK) \<noteq> N" by auto
      from Cons.IH [OF oK sub tK(2)]
      have ih: "snd (a_round wd K os (fst rK))
                  = take (nat (K - snd (fst rK))) (snd (a_round wd N os (fst rK)))"
        "snd (fst (a_round wd K os (fst rK))) < K \<longrightarrow>
            a_round wd K os (fst rK) = a_round wd N os (fst rK)"
        by simp_all
      have a: "snd (a_round wd K (po # os) (db, tpos))
          = take (nat (K - tpos)) (snd (a_round wd N (po # os) (db, tpos)))"
        unfolding unfK unfN eq [symmetric]
        using nK nN ih(1) take_append_short [OF tK lenK]
        by simp
      have b: "snd (fst (a_round wd K (po # os) (db, tpos))) < K \<longrightarrow>
          a_round wd K (po # os) (db, tpos) = a_round wd N (po # os) (db, tpos)"
        unfolding unfK unfN eq [symmetric]
        using nK nN ih(2) by simp
      from a b show ?thesis by blast
    next
      case False
      with tK(2) have eK: "snd (fst rK) = K" by simp
      then have lenK': "length (snd rK) = nat (K - tpos)" using lenK by simp
      have a: "snd (a_round wd K (po # os) (db, tpos))
          = take (nat (K - tpos)) (snd (a_round wd N (po # os) (db, tpos)))"
        unfolding unfK unfN
        using eK lK take_append_long [OF lK lenK']
        by simp
      have b: "\<not> snd (fst (a_round wd K (po # os) (db, tpos))) < K"
        unfolding unfK using eK by simp
      from a b show ?thesis by blast
    qed
  qed
qed

lemma a_main_at_end: "\<not> snd s < T \<Longrightarrow> a_main fuel wd T os s = Some (s, [])"
  by (cases fuel) simp_all

lemma a_main_prefix:
  assumes KN: "K \<le> N"
  shows "db_ok L wd db \<Longrightarrow> len ` set os \<subseteq> L \<Longrightarrow> tpos \<le> K \<Longrightarrow>
     a_main fK wd K os (db, tpos) = Some rK \<Longrightarrow> a_main fN wd N os (db, tpos) = Some rN \<Longrightarrow>
     snd rK = take (nat (K - tpos)) (snd rN)"
proof (induction fK arbitrary: fN db tpos rK rN)
  case 0
  then show ?case by (auto split: if_splits)
next
  case (Suc fK)
  show ?case
  proof (cases "tpos < K")
    case False
    with Suc.prems(3,4) show ?thesis by auto
  next
    case True
    with KN have tN: "tpos < N" by simp
    with Suc.prems(5) obtain fN' where fN: "fN = Suc fN'" by (cases fN) auto
    define r1K where "r1K = a_round wd K os (db, tpos)"
    define r1N where "r1N = a_round wd N os (db, tpos)"
    from Suc.prems(4) True obtain r2K where r2K: "a_main fK wd K os (fst r1K) = Some r2K"
      and rK: "rK = (fst r2K, snd r1K @ snd r2K)"
      by (auto simp: r1K_def Let_def split: option.splits)
    from Suc.prems(5) tN fN obtain r2N where r2N: "a_main fN' wd N os (fst r1N) = Some r2N"
      and rN: "rN = (fst r2N, snd r1N @ snd r2N)"
      by (auto simp: r1N_def Let_def split: option.splits)
    have sK: "step_ok L wd K db tpos r1K"
      unfolding r1K_def by (rule a_round_step_ok [OF Suc.prems(1,2,3)])
    from sK have tK: "tpos \<le> snd (fst r1K)" "snd (fst r1K) \<le> K"
      and lenK: "length (snd r1K) = nat (snd (fst r1K) - tpos)"
      and oK: "db_ok L wd (fst (fst r1K))"
      by (simp_all add: step_ok_def)
    from a_round_prefix [OF KN Suc.prems(1,2,3)]
    have p: "snd r1K = take (nat (K - tpos)) (snd r1N)"
      "snd (fst r1K) < K \<longrightarrow> r1K = r1N"
      by (simp_all add: r1K_def r1N_def)
    show ?thesis
    proof (cases "snd (fst r1K) < K")
      case lt: True
      with p(2) have eq: "r1K = r1N" by simp
      from Suc.IH [OF oK Suc.prems(2) tK(2), of r2K fN' r2N] r2K r2N eq
      have "snd r2K = take (nat (K - snd (fst r1K))) (snd r2N)" by simp
      with take_append_short [OF tK lenK] show ?thesis
        by (simp add: rK rN eq [symmetric])
    next
      case False
      with tK(2) have eK: "snd (fst r1K) = K" by simp
      then have "a_main fK wd K os (fst r1K) = Some (fst r1K, [])"
        by (intro a_main_at_end) simp
      with r2K have e2: "snd r2K = []" by auto
      from eK lenK have lenK': "length (snd r1K) = nat (K - tpos)" by simp
      from take_append_long [OF p(1) lenK'] e2 show ?thesis
        by (simp add: rK rN)
    qed
  qed
qed

subsection \<open>The state at the start of the loop\<close>

lemma elem_ks_pos: "elem_valid_with_db b db \<Longrightarrow> 0 < elem_ks b db"
  unfolding elem_ks_prod
  by (induction b) (auto split: if_splits)

lemma gen_chains_sum:
  assumes "1 \<le> n" and "b \<in> set (gen_chains db a c n)"
  shows "sum_list b = n"
proof -
  from assms(2) have "b \<in> canonical_decode n ` {0 ..< 2 ^ (n - 1)}"
    by (auto simp: gen_chains_canonical)
  with canonical_decode_range [OF assms(1)] show ?thesis
    by (simp add: compositions_def)
qed

lemma sum_list_mset_cong:
  "mset xs = mset ys \<Longrightarrow> sum_list (map f xs) = (sum_list (map f ys) :: int)"
  by (metis mset_map sum_mset_sum_list)

lemma platform_ok_elems:
  "platform_ok pf \<Longrightarrow> mset (qsort_elems pf sort_by_ks xs) = mset xs"
  by (simp add: platform_ok_def)

lemma platform_ok_orders:
  "platform_ok pf \<Longrightarrow> mset (qsort_orders pf sort_by_cnt xs) = mset xs"
  by (simp add: platform_ok_def)

lemma start_db_same_words: "same_words (start_db pf p ls) (load_words ls)"
  unfolding start_db_def
  by (rule same_words_trans [OF sort_elems_same_words setup_db_same_words])

lemma start_db_elems_mset:
  assumes "platform_ok pf"
  shows "mset (elems_buf (start_db pf p ls n)) = mset (elems_buf (fst (setup_db p ls) n))"
  by (simp add: start_db_def sort_elems_eq platform_ok_elems [OF assms])

lemma start_db_elems_pos: "elems_pos (start_db pf p ls n) = 0"
  by (simp add: start_db_def sort_elems_eq setup_db_fst load_words_elems)

lemma start_db_elem:
  assumes pf: "platform_ok pf" and cp: "check_params p = None"
    and n: "pw_min p \<le> int n" "int n \<le> pw_max p"
    and e: "e \<in> set (elems_buf (start_db pf p ls n))"
  shows "ks_pos e = 0 \<and> 0 < ks_cnt e \<and> elem_valid_with_db (buf e) (start_db pf p ls)
           \<and> sum_list (buf e) = n"
proof -
  from check_params_None [OF cp] n have n1: "1 \<le> n" by simp
  from e have "e \<in> set (elems_buf (fst (setup_db p ls) n))"
    using start_db_elems_mset [OF pf, of p ls n] by (metis mset_eq_setD)
  then obtain b where b: "b \<in> set (gen_chains (load_words ls) (elem_cnt_min p) (elem_cnt_max p) n)"
    and eb: "e = stored_elem (load_words ls) b"
    by (auto simp: setup_db_elems split: if_splits)
  have v: "elem_valid_with_db b (load_words ls)" using b by (rule gen_chains_valid)
  have "0 < ks_cnt e" using elem_ks_pos [OF v] by (simp add: eb stored_elem_def)
  moreover have "elem_valid_with_db (buf e) (start_db pf p ls)"
    using v by (simp add: eb stored_elem_def elem_valid_same_words [OF start_db_same_words])
  moreover have "sum_list (buf e) = n"
    using gen_chains_sum [OF n1 b] by (simp add: eb stored_elem_def)
  ultimately show ?thesis by (simp add: eb stored_elem_def)
qed

lemma start_db_ok:
  assumes pf: "platform_ok pf" and cp: "check_params p = None"
    and w64: "\<forall>n \<in> {nat (pw_min p) .. nat (pw_max p)}. int (wd n) < 2 ^ 64"
  shows "db_ok {nat (pw_min p) .. nat (pw_max p)} wd (start_db pf p ls)"
proof -
  have wf: "words_wf (start_db pf p ls)"
    by (simp add: words_wf_same_words [OF start_db_same_words] words_wf_load_words)
  have "slot_ok (start_db pf p ls) n" if "n \<in> {nat (pw_min p) .. nat (pw_max p)}" for n
  proof -
    from that check_params_None [OF cp]
    have n: "pw_min p \<le> int n" "int n \<le> pw_max p" and n16: "n \<le> 16" by auto
    show ?thesis
      unfolding slot_ok_def
      using n16 start_db_elem [OF pf cp n] by (auto simp: start_db_elems_pos)
  qed
  with wf w64 show ?thesis by (simp add: db_ok_def)
qed

lemma start_orders_len:
  assumes "platform_ok pf"
  shows "len ` set (sort_pw_orders pf pmin pmax db) = {pmin .. pmax}"
proof -
  have "mset (sort_pw_orders pf pmin pmax db) = mset (init_pw_orders pmin pmax db)"
    by (simp add: sort_pw_orders_def platform_ok_orders [OF assms])
  then have "set (sort_pw_orders pf pmin pmax db) = set (init_pw_orders pmin pmax db)"
    by (rule mset_eq_setD)
  then have "len ` set (sort_pw_orders pf pmin pmax db) = set (map len (init_pw_orders pmin pmax db))"
    by simp
  then show ?thesis by (simp only: init_pw_orders_len set_upt atLeastLessThanSuc_atLeastAtMost)
qed

lemma start_ks_rem:
  assumes pf: "platform_ok pf" and cp: "check_params p = None"
  shows "ks_rem [nat (pw_min p) ..< Suc (nat (pw_max p))] (start_db pf p ls) = snd (setup_db p ls)"
proof -
  let ?ns = "[nat (pw_min p) ..< Suc (nat (pw_max p))]"
  have "slot_rem (start_db pf p ls n)
      = sum_list (map (\<lambda>b. elem_ks b (load_words ls))
          (gen_chains (load_words ls) (elem_cnt_min p) (elem_cnt_max p) n))"
    if "n \<in> set ?ns" for n
  proof -
    have "slot_rem (start_db pf p ls n)
        = sum_list (map (\<lambda>e. ks_cnt e - ks_pos e) (elems_buf (start_db pf p ls n)))"
      by (simp add: slot_rem_def start_db_elems_pos)
    also have "\<dots> = sum_list (map (\<lambda>e. ks_cnt e - ks_pos e) (elems_buf (fst (setup_db p ls) n)))"
      by (rule sum_list_mset_cong [OF start_db_elems_mset [OF pf]])
    also have "\<dots> = sum_list (map (\<lambda>b. elem_ks b (load_words ls))
          (gen_chains (load_words ls) (elem_cnt_min p) (elem_cnt_max p) n))"
      using that by (auto simp: setup_db_elems comp_def stored_elem_def)
    finally show ?thesis .
  qed
  then have "map (\<lambda>n. slot_rem (start_db pf p ls n)) ?ns
      = map (\<lambda>n. sum_list (map (\<lambda>b. elem_ks b (load_words ls))
          (gen_chains (load_words ls) (elem_cnt_min p) (elem_cnt_max p) n))) ?ns"
    by (intro map_cong) simp_all
  then show ?thesis by (simp only: ks_rem_def setup_db_snd)
qed

lemma default_dist_bounds:
  assumes "1 \<le> n" "n \<le> 16"
  shows "0 < calc_wordlen_dist False db n \<and> int (calc_wordlen_dist False db n) < 2 ^ 64"
proof -
  let ?tl = "drop 1 DEF_WORDLEN_DIST"
  have l: "length DEF_WORDLEN_DIST = 25" by (simp add: DEF_WORDLEN_DIST_def)
  have "DEF_WORDLEN_DIST ! n = ?tl ! (n - 1)"
    using assms l by simp
  moreover have "?tl ! (n - 1) \<in> set ?tl"
    using assms l by (intro nth_mem) simp
  moreover have "\<forall>x \<in> set ?tl. 0 < x \<and> int x < 2 ^ 64"
    by (simp add: DEF_WORDLEN_DIST_def)
  ultimately have "0 < DEF_WORDLEN_DIST ! n \<and> int (DEF_WORDLEN_DIST ! n) < 2 ^ 64"
    by simp
  with assms show ?thesis
    by (simp add: calc_wordlen_dist_def IN_LEN_MIN_def IN_LEN_MAX_def DEF_WORDLEN_DIST_CNT_def)
qed

lemma default_bounds_ok:
  assumes "check_params p = None" and "\<not> wl_dist_len p"
  shows "batch_bounds_ok p ls"
proof -
  have "0 < calc_wordlen_dist False (fst (setup_db p ls)) n
      \<and> int (calc_wordlen_dist False (fst (setup_db p ls)) n) < 2 ^ 64"
    if "n \<in> {nat (pw_min p) .. nat (pw_max p)}" for n
  proof -
    from that check_params_None [OF assms(1)] have "1 \<le> n" "n \<le> 16" by auto
    then show ?thesis by (rule default_dist_bounds)
  qed
  with assms(2) show ?thesis by (simp add: batch_bounds_ok_def)
qed

lemma main_loop_start:
  assumes pf: "platform_ok pf" and cp: "check_params p = None" and nk: "\<not> keyspace p"
    and w64: "\<forall>n \<in> {nat (pw_min p) .. nat (pw_max p)}.
                int (calc_wordlen_dist (wl_dist_len p) (fst (setup_db p ls)) n) < 2 ^ 64"
    and cw: "check_window (skip p) (limit p) (snd (setup_db p ls)) = Inr T" and T0: "0 \<le> T"
  shows "main pf fuel p ls =
     (case run_lines pf fuel p ls T of
        None \<Rightarrow> Inl OutOfFuel
      | Some r \<Rightarrow> Inr (Candidates (concat (drop (nat (skip p)) (snd r)))))"
proof -
  let ?wd = "calc_wordlen_dist (wl_dist_len p) (fst (setup_db p ls))"
  let ?L = "{nat (pw_min p) .. nat (pw_max p)}"
  let ?os = "sort_pw_orders pf (nat (pw_min p)) (nat (pw_max p)) (start_db pf p ls)"
  have ok: "db_ok ?L ?wd (start_db pf p ls)" by (rule start_db_ok [OF pf cp w64])
  have sub: "len ` set ?os \<subseteq> ?L" using start_orders_len [OF pf] by simp
  have ob: "obuf out_init = []" by (simp add: out_init_def)
  have ml: "main_loop fuel pf ?wd (skip p) T ?os
        \<lparr>st_db = start_db pf p ls, st_out = out_init, st_total_ks_pos = 0\<rparr>
      = (case a_main fuel ?wd T ?os (start_db pf p ls, 0) of
            None \<Rightarrow> Inl OutOfFuel
          | Some r \<Rightarrow> Inr (loop_result out_init (skip p) 0 r))"
    by (rule main_loop_abstract [OF pf ok sub T0 ob])
  have m2: "main pf fuel p ls =
      (case main_loop fuel pf ?wd (skip p) T ?os
              \<lparr>st_db = start_db pf p ls, st_out = out_init, st_total_ks_pos = 0\<rparr> of
         Inl e \<Rightarrow> Inl e
       | Inr st \<Rightarrow> Inr (Candidates (fp (st_out st))))"
    unfolding main_unfold [OF cp nk] cw start_db_def by simp
  show ?thesis
    unfolding m2 ml run_lines_def
    by (simp add: loop_result_def out_init_def split: option.splits)
qed

lemma main_run_lines:
  assumes pf: "platform_ok pf" and cp: "check_params p = None" and nk: "\<not> keyspace p"
    and bb: "batch_bounds_ok p ls"
    and cw: "check_window (skip p) (limit p) (snd (setup_db p ls)) = Inr T" and T0: "0 \<le> T"
  shows "main pf fuel p ls =
     (case run_lines pf fuel p ls T of
        None \<Rightarrow> Inl OutOfFuel
      | Some r \<Rightarrow> Inr (Candidates (concat (drop (nat (skip p)) (snd r)))))"
proof -
  from bb have "\<forall>n \<in> {nat (pw_min p) .. nat (pw_max p)}.
      int (calc_wordlen_dist (wl_dist_len p) (fst (setup_db p ls)) n) < 2 ^ 64"
    by (simp add: batch_bounds_ok_def)
  from main_loop_start [OF pf cp nk this cw T0] show ?thesis .
qed

lemma run_lines_total:
  assumes pf: "platform_ok pf" and cp: "check_params p = None" and bb: "batch_bounds_ok p ls"
    and T0: "0 \<le> T" and Tt: "T \<le> snd (setup_db p ls)" and fuel: "nat T \<le> fuel"
  shows "\<exists>r. run_lines pf fuel p ls T = Some r \<and> length (snd r) = nat T"
proof -
  let ?wd = "calc_wordlen_dist (wl_dist_len p) (fst (setup_db p ls))"
  let ?ns = "[nat (pw_min p) ..< Suc (nat (pw_max p))]"
  let ?os = "sort_pw_orders pf (nat (pw_min p)) (nat (pw_max p)) (start_db pf p ls)"
  have sns: "set ?ns = {nat (pw_min p) .. nat (pw_max p)}"
    by (simp only: set_upt atLeastLessThanSuc_atLeastAtMost)
  from bb have w64: "\<forall>n \<in> {nat (pw_min p) .. nat (pw_max p)}. int (?wd n) < 2 ^ 64"
    and wpos: "\<forall>n \<in> set ?ns. 0 < ?wd n"
    unfolding sns by (simp_all add: batch_bounds_ok_def)
  have ok: "db_ok (set ?ns) ?wd (start_db pf p ls)"
    unfolding sns by (rule start_db_ok [OF pf cp w64])
  have os: "len ` set ?os = set ?ns" unfolding sns by (rule start_orders_len [OF pf])
  have d: "distinct ?ns" by (rule distinct_upt)
  have rm: "rem_ok ?ns T (start_db pf p ls, 0)"
    using Tt by (simp add: rem_ok_def start_ks_rem [OF pf cp] del: upt_Suc)
  have f: "nat (T - 0) \<le> fuel" using fuel by simp
  from a_main_terminates [OF d os wpos ok T0 rm f]
  obtain r where r: "a_main fuel ?wd T ?os (start_db pf p ls, 0) = Some r" by blast
  have sub: "len ` set ?os \<subseteq> set ?ns" using os by simp
  from a_main_step_ok [OF ok sub T0 r]
  have "length (snd r) = nat T" by (simp add: step_ok_def)
  with r show ?thesis by (simp add: run_lines_def)
qed

lemma run_lines_prefix:
  assumes pf: "platform_ok pf" and cp: "check_params p = None" and bb: "batch_bounds_ok p ls"
    and K0: "0 \<le> K" and KN: "K \<le> N"
    and rK: "run_lines pf fK p ls K = Some rK" and rN: "run_lines pf fN p ls N = Some rN"
  shows "snd rK = take (nat K) (snd rN)"
proof -
  let ?wd = "calc_wordlen_dist (wl_dist_len p) (fst (setup_db p ls))"
  let ?L = "{nat (pw_min p) .. nat (pw_max p)}"
  let ?os = "sort_pw_orders pf (nat (pw_min p)) (nat (pw_max p)) (start_db pf p ls)"
  from bb have w64: "\<forall>n \<in> ?L. int (?wd n) < 2 ^ 64" by (simp add: batch_bounds_ok_def)
  have ok: "db_ok ?L ?wd (start_db pf p ls)" by (rule start_db_ok [OF pf cp w64])
  have sub: "len ` set ?os \<subseteq> ?L" using start_orders_len [OF pf] by simp
  from a_main_prefix [OF KN ok sub K0 rK [unfolded run_lines_def] rN [unfolded run_lines_def]]
  show ?thesis by simp
qed

lemma setup_db_window: "setup_db (p\<lparr>skip := s, limit := l\<rparr>) ls = setup_db p ls"
  by (simp add: setup_db_def)

lemma start_db_window: "start_db pf (p\<lparr>skip := s, limit := l\<rparr>) ls = start_db pf p ls"
  by (simp add: start_db_def setup_db_window)

lemma run_lines_window: "run_lines pf fuel (p\<lparr>skip := s, limit := l\<rparr>) ls T = run_lines pf fuel p ls T"
  by (simp add: run_lines_def setup_db_window start_db_window)

lemma check_params_window: "check_params (p\<lparr>skip := s, limit := l\<rparr>) = check_params p"
  by (simp add: check_params_def)

lemma batch_bounds_window: "batch_bounds_ok (p\<lparr>skip := s, limit := l\<rparr>) ls = batch_bounds_ok p ls"
  by (simp add: batch_bounds_ok_def setup_db_window)

section \<open>Runs of the whole program: C5, C4\<close>

lemma platform_stable_ok: "platform_ok platform_stable"
  by (simp add: platform_ok_def platform_stable_def mset_qsort_stable)

lemma concat_take_drop: "concat (take k l) @ concat (drop k l) = concat l"
  by (metis append_take_drop_id concat_append)

text \<open>
  C5, as amended. For the same wordlist and options, where every length in range has a
  positive batch bound (always without \<open>wl-dist-len\<close>), let \<open>N\<close> be at most the total
  keyspace and \<open>0 < K \<le> N\<close>, with \<open>K < N\<close> unless \<open>N\<close> is the total keyspace. With
  enough fuel for the loop to end, the run with \<open>skip = 0, limit = K\<close> and the run with
  \<open>skip = K, limit = N - K\<close> both end with an output, and the two outputs one after the
  other are the output of the single run with \<open>skip = 0, limit = N\<close>. (\<open>limit = 0\<close>
  means no limit, which is why an empty window is left out; \<open>main\<close> is a function of
  the platform, the options and the wordlist.)
\<close>

theorem shard_composability:
  assumes pf: "platform_ok pf" and cp: "check_params p = None" and nk: "\<not> keyspace p"
    and bb: "batch_bounds_ok p ls"
    and K0: "0 < K" and KN: "K \<le> N" and Nt: "N \<le> snd (setup_db p ls)"
    and ne: "K < N \<or> N = snd (setup_db p ls)"
    and fuel: "nat (snd (setup_db p ls)) \<le> fuel"
  shows "\<exists>a b. main pf fuel (p\<lparr>skip := 0, limit := K\<rparr>) ls = Inr (Candidates a)
           \<and> main pf fuel (p\<lparr>skip := K, limit := N - K\<rparr>) ls = Inr (Candidates b)
           \<and> main pf fuel (p\<lparr>skip := 0, limit := N\<rparr>) ls = Inr (Candidates (a @ b))"
proof -
  let ?t = "snd (setup_db p ls)"
  let ?pA = "p\<lparr>skip := 0, limit := K\<rparr>"
  let ?pB = "p\<lparr>skip := K, limit := N - K\<rparr>"
  let ?pC = "p\<lparr>skip := 0, limit := N\<rparr>"
  have N0: "0 \<le> N" using K0 KN by simp
  have Kt: "K \<le> ?t" using KN Nt by simp
  have fK: "nat K \<le> fuel" and fN: "nat N \<le> fuel" using fuel Kt Nt by simp_all
  from run_lines_total [OF pf cp bb _ Kt fK] K0
  obtain rK where rK: "run_lines pf fuel p ls K = Some rK" by auto
  from run_lines_total [OF pf cp bb N0 Nt fN]
  obtain rN where rN: "run_lines pf fuel p ls N = Some rN" by auto
  have pre: "snd rK = take (nat K) (snd rN)"
    using run_lines_prefix [OF pf cp bb _ KN rK rN] K0 by simp
  have cwA: "check_window (skip ?pA) (limit ?pA) (snd (setup_db ?pA ls)) = Inr K"
    using K0 Kt by (simp add: check_window_def setup_db_window Let_def)
  have cwB: "check_window (skip ?pB) (limit ?pB) (snd (setup_db ?pB ls)) = Inr N"
    using K0 KN Nt ne by (auto simp: check_window_def setup_db_window Let_def)
  have cwC: "check_window (skip ?pC) (limit ?pC) (snd (setup_db ?pC ls)) = Inr N"
    using K0 KN Nt by (simp add: check_window_def setup_db_window Let_def)
  have A: "main pf fuel ?pA ls = Inr (Candidates (concat (snd rK)))"
    using main_run_lines [OF pf _ _ _ cwA, of fuel] cp nk bb K0 rK
    by (simp add: check_params_window batch_bounds_window run_lines_window)
  have B: "main pf fuel ?pB ls = Inr (Candidates (concat (drop (nat K) (snd rN))))"
    using main_run_lines [OF pf _ _ _ cwB, of fuel] cp nk bb N0 rN
    by (simp add: check_params_window batch_bounds_window run_lines_window)
  have C: "main pf fuel ?pC ls = Inr (Candidates (concat (snd rN)))"
    using main_run_lines [OF pf _ _ _ cwC, of fuel] cp nk bb N0 rN
    by (simp add: check_params_window batch_bounds_window run_lines_window)
  have "concat (snd rK) @ concat (drop (nat K) (snd rN)) = concat (snd rN)"
    unfolding pre by (rule concat_take_drop)
  with A B C show ?thesis by metis
qed

theorem shard_composability_witness:
  "platform_ok platform_stable
   \<and> check_params (default_params\<lparr>pw_min := 2, pw_max := 2\<rparr>) = None
   \<and> snd (setup_db (default_params\<lparr>pw_min := 2, pw_max := 2\<rparr>) [''a'', ''b'', ''c'']) = 9
   \<and> (\<exists>a b. main platform_stable 9 (default_params\<lparr>pw_min := 2, pw_max := 2, skip := 0, limit := 3\<rparr>)
                [''a'', ''b'', ''c''] = Inr (Candidates a)
           \<and> main platform_stable 9 (default_params\<lparr>pw_min := 2, pw_max := 2, skip := 3, limit := 6\<rparr>)
                [''a'', ''b'', ''c''] = Inr (Candidates b)
           \<and> main platform_stable 9 (default_params\<lparr>pw_min := 2, pw_max := 2, skip := 0, limit := 9\<rparr>)
                [''a'', ''b'', ''c''] = Inr (Candidates (a @ b)))"
proof -
  let ?p = "default_params\<lparr>pw_min := 2, pw_max := 2\<rparr>"
  let ?ls = "[''a'', ''b'', ''c'']"
  have cp: "check_params ?p = None" by code_simp
  have nk: "\<not> keyspace ?p" by code_simp
  have nw: "\<not> wl_dist_len ?p" by code_simp
  have bb: "batch_bounds_ok ?p ?ls" by (rule default_bounds_ok [OF cp nw])
  have t: "snd (setup_db ?p ?ls) = 9" by code_simp
  have K0: "(0::int) < 3" by simp
  have KN: "(3::int) \<le> 9" by simp
  have Nt: "9 \<le> snd (setup_db ?p ?ls)" by (simp add: t)
  have ne: "(3::int) < 9 \<or> 9 = snd (setup_db ?p ?ls)" by simp
  have f: "nat (snd (setup_db ?p ?ls)) \<le> 9" by (simp add: t)
  from shard_composability [OF platform_stable_ok cp nk bb K0 KN Nt ne f]
  have "\<exists>a b. main platform_stable 9 (?p\<lparr>skip := 0, limit := 3\<rparr>) ?ls = Inr (Candidates a)
           \<and> main platform_stable 9 (?p\<lparr>skip := 3, limit := 6\<rparr>) ?ls = Inr (Candidates b)
           \<and> main platform_stable 9 (?p\<lparr>skip := 0, limit := 9\<rparr>) ?ls = Inr (Candidates (a @ b))"
    by (simp add: t)
  with platform_stable_ok cp t show ?thesis by simp
qed

lemma a_main_one_round:
  assumes "snd s < T" and "snd (fst (a_round wd T os s)) = T"
  shows "a_main (Suc fuel) wd T os s = Some (a_round wd T os s)"
  using assms by (simp add: Let_def a_main_at_end)

lemma a_main_stuck:
  "a_round wd T os s = (s, []) \<Longrightarrow> snd s < T \<Longrightarrow> a_main fuel wd T os s = None"
  by (induction fuel) (simp_all add: Let_def)

lemma advance_zero:
  assumes "elems_pos entry < length (elems_buf entry)"
    and "ks_pos (elems_buf entry ! elems_pos entry) \<noteq> ks_cnt (elems_buf entry ! elems_pos entry)"
  shows "advance entry 0 = entry"
  using assms by (simp add: advance_def Let_def)

text \<open>
  The run that C4 fails on: only the word \<open>a\<close>, candidates of length 2, and
  \<open>wl-dist-len\<close>. The options are valid and the keyspace is 1 (the chain \<open>(1, 1)\<close>),
  but the batch bound of length 2 is \<open>|B_2| = 0\<close>, so every pass over the length order
  leaves the state as it is and the loop has not ended after any number of passes.
\<close>

theorem wl_dist_len_run_never_ends:
  "check_params (default_params\<lparr>pw_min := 2, pw_max := 2, wl_dist_len := True\<rparr>) = None
   \<and> snd (setup_db (default_params\<lparr>pw_min := 2, pw_max := 2, wl_dist_len := True\<rparr>) [''a'']) = 1
   \<and> (\<forall>fuel. main platform_stable fuel
                 (default_params\<lparr>pw_min := 2, pw_max := 2, wl_dist_len := True\<rparr>) [''a'']
               = Inl OutOfFuel)"
proof -
  let ?p = "default_params\<lparr>pw_min := 2, pw_max := 2, wl_dist_len := True\<rparr>"
  let ?ls = "[''a'']"
  define db where "db = start_db platform_stable ?p ?ls"
  define wdf where "wdf = calc_wordlen_dist (wl_dist_len ?p) (fst (setup_db ?p ?ls))"
  have cp: "check_params ?p = None" by code_simp
  have nk: "\<not> keyspace ?p" by code_simp
  have t: "snd (setup_db ?p ?ls) = 1" by code_simp
  have mn: "nat (pw_min ?p) = 2" "nat (pw_max ?p) = 2" by (simp_all add: default_params_def)
  have wc: "words_cnt (fst (setup_db ?p ?ls) 2) = 0" by code_simp
  have wl: "wl_dist_len ?p" by code_simp
  have wd: "wdf 2 = 0"
    unfolding wdf_def by (simp add: calc_wordlen_dist_def wl wc IN_LEN_MIN_def IN_LEN_MAX_def)
  have w64: "\<forall>n \<in> {nat (pw_min ?p) .. nat (pw_max ?p)}.
      int (calc_wordlen_dist (wl_dist_len ?p) (fst (setup_db ?p ?ls)) n) < 2 ^ 64"
    unfolding mn wdf_def [symmetric] using wd by simp
  have cw: "check_window (skip ?p) (limit ?p) (snd (setup_db ?p ?ls)) = Inr 1"
    unfolding t by (simp add: check_window_def default_params_def)
  have os: "sort_pw_orders platform_stable 2 2 db = [\<lparr>len = 2, cnt = 0\<rparr>]"
    unfolding db_def start_db_def by code_simp
  have eb: "elems_buf (db 2) = [\<lparr>buf = [1, 1], ks_cnt = 1, ks_pos = 0\<rparr>]"
    unfolding db_def start_db_def by code_simp
  have ep: "elems_pos (db 2) = 0" unfolding db_def by (rule start_db_elems_pos)
  have adv: "advance (db 2) 0 = db 2"
    by (rule advance_zero) (simp_all add: eb ep)
  have av: "a_visit wdf 1 2 (db, 0) = ((db, 0), [])"
    by (simp add: a_visit_def Let_def iter_max_of_def wd eb ep adv lines_from_0)
  have ar: "a_round wdf 1 [\<lparr>len = 2, cnt = 0\<rparr>] (db, 0) = ((db, 0), [])"
    by (simp add: Let_def av eb ep elems_cnt_def)
  have "run_lines platform_stable fuel ?p ?ls 1 = None" for fuel
    unfolding run_lines_def mn db_def [symmetric] wdf_def [symmetric] os
    by (rule a_main_stuck [OF ar]) simp
  then have "main platform_stable fuel ?p ?ls = Inl OutOfFuel" for fuel
    using main_loop_start [OF platform_stable_ok cp nk w64 cw, of fuel] by simp
  with cp t show ?thesis by blast
qed

text \<open>
  C5 as stated fails for the split at \<open>K = 0\<close>: with the single word \<open>a\<close> and
  \<open>pw_min = pw_max = 1\<close> the keyspace is \<open>N = 1\<close>; the run with \<open>skip = 0, limit = 0\<close>
  prints the whole keyspace, the run with \<open>skip = 0, limit = N - 0\<close> prints it again,
  and the single run with \<open>skip = 0, limit = N\<close> prints it once.
\<close>

theorem shard_split_at_zero_counterexample:
  "snd (setup_db (default_params\<lparr>pw_min := 1, pw_max := 1\<rparr>) [''a'']) = 1
   \<and> main platform_stable 1 (default_params\<lparr>pw_min := 1, pw_max := 1, skip := 0, limit := 0\<rparr>) [''a'']
       = Inr (Candidates [CHR ''a'', CHR 0x0A])
   \<and> main platform_stable 1 (default_params\<lparr>pw_min := 1, pw_max := 1, skip := 0, limit := 1 - 0\<rparr>) [''a'']
       = Inr (Candidates [CHR ''a'', CHR 0x0A])
   \<and> main platform_stable 1 (default_params\<lparr>pw_min := 1, pw_max := 1, skip := 0, limit := 1\<rparr>) [''a'']
       \<noteq> Inr (Candidates ([CHR ''a'', CHR 0x0A] @ [CHR ''a'', CHR 0x0A]))"
proof -
  let ?p = "default_params\<lparr>pw_min := 1, pw_max := 1\<rparr>"
  let ?ls = "[''a'']"
  define db where "db = start_db platform_stable ?p ?ls"
  define wdf where "wdf = calc_wordlen_dist (wl_dist_len ?p) (fst (setup_db ?p ?ls))"
  have cp: "check_params ?p = None" by code_simp
  have nk: "\<not> keyspace ?p" by code_simp
  have nw: "\<not> wl_dist_len ?p" by code_simp
  have bb: "batch_bounds_ok ?p ?ls" by (rule default_bounds_ok [OF cp nw])
  have t: "snd (setup_db ?p ?ls) = 1" by code_simp
  have mn: "nat (pw_min ?p) = 1" "nat (pw_max ?p) = 1" by (simp_all add: default_params_def)
  have wd: "wdf (Suc 0) = 15"
    unfolding wdf_def
    by (simp add: calc_wordlen_dist_def nw IN_LEN_MIN_def IN_LEN_MAX_def
          DEF_WORDLEN_DIST_CNT_def DEF_WORDLEN_DIST_def)
  have os: "sort_pw_orders platform_stable 1 1 db = [\<lparr>len = 1, cnt = 1\<rparr>]"
    unfolding db_def start_db_def by code_simp
  have eb: "elems_buf (db (Suc 0)) = [\<lparr>buf = [1], ks_cnt = 1, ks_pos = 0\<rparr>]"
    unfolding db_def start_db_def by code_simp
  have ep: "elems_pos (db (Suc 0)) = 0" unfolding db_def by (rule start_db_elems_pos)
  have cl: "cand_line db [Suc 0] 0 = [CHR ''a'', CHR 0x0A]"
    unfolding db_def start_db_def by code_simp
  have av: "snd (fst (a_visit wdf 1 1 (db, 0))) = 1 \<and> snd (a_visit wdf 1 1 (db, 0)) = [[CHR ''a'', CHR 0x0A]]"
    by (simp add: a_visit_def Let_def iter_max_of_def wd eb ep lines_from_def cl)
  have ar: "a_round wdf 1 [\<lparr>len = 1, cnt = 1\<rparr>] (db, 0) = a_visit wdf 1 1 (db, 0)"
    using av by (simp add: Let_def eb ep elems_cnt_def)
  have "a_main (Suc 0) wdf 1 [\<lparr>len = 1, cnt = 1\<rparr>] (db, 0) = Some (a_visit wdf 1 1 (db, 0))"
    using a_main_one_round [of "(db, 0)" 1 wdf "[\<lparr>len = 1, cnt = 1\<rparr>]" 0] av
    by (simp only: ar snd_conv)
  then have rl: "run_lines platform_stable 1 ?p ?ls 1 = Some (a_visit wdf 1 1 (db, 0))"
    unfolding run_lines_def mn db_def [symmetric] wdf_def [symmetric] os by simp
  have cw0: "check_window 0 0 1 = Inr 1" and cw1: "check_window 0 1 1 = Inr 1"
    by (simp_all add: check_window_def)
  have A: "main platform_stable 1 (?p\<lparr>skip := 0, limit := 0\<rparr>) ?ls = Inr (Candidates [CHR ''a'', CHR 0x0A])"
    using main_run_lines [OF platform_stable_ok, of "?p\<lparr>skip := 0, limit := 0\<rparr>" ?ls 1 1]
      cp nk bb rl av
    by (simp add: check_params_window batch_bounds_window run_lines_window setup_db_window t cw0)
  have B: "main platform_stable 1 (?p\<lparr>skip := 0, limit := 1\<rparr>) ?ls = Inr (Candidates [CHR ''a'', CHR 0x0A])"
    using main_run_lines [OF platform_stable_ok, of "?p\<lparr>skip := 0, limit := 1\<rparr>" ?ls 1 1]
      cp nk bb rl av
    by (simp add: check_params_window batch_bounds_window run_lines_window setup_db_window t cw1)
  from t A B show ?thesis by simp
qed

lemma lines_from_newline:
  "\<forall>l \<in> set (lines_from db b kp i c). l \<noteq> [] \<and> last l = CHR 0x0A"
  by (simp add: lines_from_def cand_line_def)

lemma a_visit_newline:
  "\<forall>l \<in> set (snd (a_visit wd T n s)). l \<noteq> [] \<and> last l = CHR 0x0A"
  using lines_from_newline by (simp add: a_visit_def Let_def)

lemma a_round_newline:
  "\<forall>l \<in> set (snd (a_round wd T os s)). l \<noteq> [] \<and> last l = CHR 0x0A"
proof (induction os arbitrary: s)
  case Nil
  then show ?case by simp
next
  case (Cons po os)
  show ?case
    using Cons.IH [of s] Cons.IH [of "fst (a_visit wd T (len po) s)"]
      a_visit_newline [of wd T "len po" s]
    by (auto simp: Let_def)
qed

lemma a_main_newline:
  "a_main fuel wd T os s = Some r \<Longrightarrow> \<forall>l \<in> set (snd r). l \<noteq> [] \<and> last l = CHR 0x0A"
proof (induction fuel arbitrary: s r)
  case 0
  then show ?case by (auto split: if_splits)
next
  case (Suc fuel)
  show ?case
  proof (cases "snd s < T")
    case True
    with Suc.prems obtain r2 where r2: "a_main fuel wd T os (fst (a_round wd T os s)) = Some r2"
      and r: "r = (fst r2, snd (a_round wd T os s) @ snd r2)"
      by (auto simp: Let_def split: option.splits)
    from Suc.IH [OF r2] a_round_newline [of wd T os s] show ?thesis
      by (auto simp: r)
  next
    case False
    with Suc.prems show ?thesis by auto
  qed
qed

text \<open>
  Where every length in range has a positive batch bound (always without
  \<open>wl-dist-len\<close>), the count of the emitted candidates is the one specified: for a
  window accepted by the validation and with fuel \<open>total_ks_cnt\<close>, the run ends and its
  output is made of newline-terminated candidates, \<open>limit\<close> of them when there is a
  limit and \<open>total_ks_cnt - skip\<close> otherwise; the first one is at global position
  \<open>skip\<close>.
\<close>

lemma enumeration_emits_window:
  assumes pf: "platform_ok pf" and cp: "check_params p = None" and nk: "\<not> keyspace p"
    and bb: "batch_bounds_ok p ls"
    and s0: "0 \<le> skip p" and sk: "skip p \<le> snd (setup_db p ls)"
    and lim: "limit p = 0 \<or> 0 < limit p \<and> skip p + limit p \<le> snd (setup_db p ls)"
    and fuel: "nat (snd (setup_db p ls)) \<le> fuel"
  shows "\<exists>cands. main pf fuel p ls = Inr (Candidates (concat cands))
           \<and> int (length cands) = (if limit p = 0 then snd (setup_db p ls) - skip p else limit p)
           \<and> (\<forall>c \<in> set cands. c \<noteq> [] \<and> last c = CHR 0x0A)"
proof -
  let ?N = "snd (setup_db p ls)"
  define T where "T = (if limit p = 0 then ?N else skip p + limit p)"
  have cw: "check_window (skip p) (limit p) ?N = Inr T"
    using s0 sk lim by (auto simp: check_window_def T_def Let_def)
  have T0: "0 \<le> T" and TN: "T \<le> ?N" and sT: "skip p \<le> T"
    using s0 sk lim by (auto simp: T_def)
  have fT: "nat T \<le> fuel" using fuel TN by simp
  from run_lines_total [OF pf cp bb T0 TN fT]
  obtain r where r: "run_lines pf fuel p ls T = Some r" and lr: "length (snd r) = nat T"
    by blast
  let ?c = "drop (nat (skip p)) (snd r)"
  have m: "main pf fuel p ls = Inr (Candidates (concat ?c))"
    using main_run_lines [OF pf cp nk bb cw T0, of fuel] r by simp
  have l: "int (length ?c) = (if limit p = 0 then ?N - skip p else limit p)"
    using lr s0 sT by (auto simp: T_def)
  have "\<forall>l \<in> set (snd r). l \<noteq> [] \<and> last l = CHR 0x0A"
    using r unfolding run_lines_def by (rule a_main_newline)
  then have n: "\<forall>c \<in> set ?c. c \<noteq> [] \<and> last c = CHR 0x0A"
    by (meson in_set_dropD)
  from m l n show ?thesis by blast
qed

lemma check_window_usage: "check_window s l t = Inl e \<Longrightarrow> \<exists>m. e = Usage m"
  by (auto simp: check_window_def Let_def split: if_splits)

lemma main_loop_done:
  "\<not> st_total_ks_pos st < T \<Longrightarrow> main_loop fuel pf wd skp T os st = Inr st"
  by (cases fuel) simp_all

text \<open>
  The whole program never divides by zero and never reads or writes out of range: for
  valid options and batch bounds that fit 64 bits, a run ends in a usage diagnostic, in
  the output, or has not ended when the fuel is used up.
\<close>

lemma main_never_faults:
  assumes pf: "platform_ok pf" and cp: "check_params p = None"
    and w64: "\<forall>n \<in> {nat (pw_min p) .. nat (pw_max p)}.
                int (calc_wordlen_dist (wl_dist_len p) (fst (setup_db p ls)) n) < 2 ^ 64"
    and e: "main pf fuel p ls = Inl e"
  shows "e = OutOfFuel \<or> (\<exists>m. e = Usage m)"
proof (cases "keyspace p")
  case True
  with cp e show ?thesis by (simp add: main_def Let_def split_def)
next
  case nk: False
  show ?thesis
  proof (cases "check_window (skip p) (limit p) (snd (setup_db p ls))")
    case (Inl e')
    with e have "e = e'" by (simp add: main_unfold [OF cp nk])
    with check_window_usage [OF Inl] show ?thesis by simp
  next
    case (Inr T)
    show ?thesis
    proof (cases "0 \<le> T")
      case True
      from main_loop_start [OF pf cp nk w64 Inr True, of fuel] e show ?thesis
        by (auto split: option.splits)
    next
      case False
      then have "main_loop fuel pf (calc_wordlen_dist (wl_dist_len p) (fst (setup_db p ls)))
          (skip p) T
          (sort_pw_orders pf (nat (pw_min p)) (nat (pw_max p))
             (sort_elems pf (nat (pw_min p)) (nat (pw_max p)) (fst (setup_db p ls))))
          \<lparr>st_db = sort_elems pf (nat (pw_min p)) (nat (pw_max p)) (fst (setup_db p ls)),
           st_out = out_init, st_total_ks_pos = 0\<rparr>
        = Inr \<lparr>st_db = sort_elems pf (nat (pw_min p)) (nat (pw_max p)) (fst (setup_db p ls)),
           st_out = out_init, st_total_ks_pos = 0\<rparr>"
        by (intro main_loop_done) simp
      with e Inr show ?thesis by (simp add: main_unfold [OF cp nk])
    qed
  qed
qed

end
